theory Spec2Isabelle
  imports Complex_Main
begin

section \<open>Numbers and the random source\<close>

text \<open>
  Positions, step widths and unit draws are Python floats; they are idealised as
  \<^typ>\<open>real\<close>. Log-density values are kept polymorphic (\<open>'v\<close>): the samplers only ever
  compare two of them with \<open>>\<close>, so a type of class \<open>ord\<close> is all the code needs.

  The global generator \<open>np.random\<close> is an explicit stream \<open>rng :: nat \<Rightarrow> real\<close> of unit draws
  together with a cursor: the \<open>k\<close>-th call of the generator returns \<open>rng k\<close>.
  \<open>np.random.uniform(low, high)\<close> is numpy's \<open>low + (high - low) * random_sample()\<close>.
\<close>

definition uniform :: "real \<Rightarrow> real \<Rightarrow> real \<Rightarrow> real" where
  "uniform low high v = low + (high - low) * v"

section \<open>SliceSampling\<close>

text \<open>
  The fields of the class, in the order \<open>__init__\<close> sets them. The three samplers each have a
  field \<open>x\<close>, so the fields carry the initials of their class.
\<close>

record 'v SliceSampling =
  ss_log_p :: "real \<Rightarrow> 'v"
  ss_x :: real
  ss_w :: real
  ss_samples :: int
  ss_evals :: int

definition SliceSampling_init :: "(real \<Rightarrow> 'v) \<Rightarrow> real \<Rightarrow> real \<Rightarrow> 'v SliceSampling" where
  "SliceSampling_init log_p x w =
     \<lparr>ss_log_p = log_p, ss_x = x, ss_w = w, ss_samples = 0, ss_evals = 0\<rparr>"

text \<open>
  What a returning call of \<open>sample\<close> leaves behind: the updated object, the returned value and
  the cursor of the random stream, together with the locals \<open>log_u_prime\<close>, \<open>xl\<close> and \<open>xr\<close> as
  they stand at the \<open>return\<close> statement.
\<close>

record 'v outcome =
  out_self :: "'v SliceSampling"
  out_value :: real
  out_log_u :: 'v
  out_xl :: real
  out_xr :: real
  out_cursor :: nat

text \<open>The method \<open>_log_p\<close>: count the evaluation, then evaluate.\<close>

definition priv_log_p :: "'v SliceSampling \<Rightarrow> real \<Rightarrow> 'v SliceSampling \<times> 'v" where
  "priv_log_p s y = (s\<lparr>ss_evals := ss_evals s + 1\<rparr>, ss_log_p s y)"

text \<open>\<open># Create interval\<close>: the bracket of width \<open>w\<close> placed at random around \<open>x\<close>.\<close>

definition create_interval :: "'v SliceSampling \<Rightarrow> real \<Rightarrow> real \<times> real" where
  "create_interval s r = (ss_x s - r * ss_w s, ss_x s + (1 - r) * ss_w s)"

text \<open>
  The two step-out loops. Neither has an iteration bound, so a call that never leaves the
  loop is the value \<open>None\<close>.
\<close>

partial_function (option) step_out_left ::
  "'v::ord SliceSampling \<Rightarrow> 'v \<Rightarrow> real \<Rightarrow> ('v SliceSampling \<times> real) option" where
  "step_out_left s log_u_prime xl =
     (case priv_log_p s xl of
        (s', v) \<Rightarrow>
          if v > log_u_prime then step_out_left s' log_u_prime (xl - ss_w s')
          else Some (s', xl))"

partial_function (option) step_out_right ::
  "'v::ord SliceSampling \<Rightarrow> 'v \<Rightarrow> real \<Rightarrow> ('v SliceSampling \<times> real) option" where
  "step_out_right s log_u_prime xr =
     (case priv_log_p s xr of
        (s', v) \<Rightarrow>
          if v > log_u_prime then step_out_right s' log_u_prime (xr + ss_w s')
          else Some (s', xr))"

definition step_out ::
  "'v::ord SliceSampling \<Rightarrow> 'v \<Rightarrow> real \<Rightarrow> real \<Rightarrow> ('v SliceSampling \<times> real \<times> real) option" where
  "step_out s log_u_prime xl xr =
     (case step_out_left s log_u_prime xl of
        None \<Rightarrow> None
      | Some (s1, xl') \<Rightarrow>
          (case step_out_right s1 log_u_prime xr of
             None \<Rightarrow> None
           | Some (s2, xr') \<Rightarrow> Some (s2, xl', xr')))"

text \<open>\<open># Adjust interval\<close>: a rejected proposal becomes the endpoint on its side of \<open>x\<close>.\<close>

definition adjust_interval :: "'v SliceSampling \<Rightarrow> real \<Rightarrow> real \<Rightarrow> real \<Rightarrow> real \<times> real" where
  "adjust_interval s xl xr x_prime =
     (if x_prime > ss_x s then (xl, x_prime) else (x_prime, xr))"

text \<open>\<open># Main sampling loop\<close>: \<open>while True\<close>, left only by the \<open>return\<close>.\<close>

partial_function (option) shrink_loop ::
  "'v::ord SliceSampling \<Rightarrow> 'v \<Rightarrow> real \<Rightarrow> real \<Rightarrow> (nat \<Rightarrow> real) \<Rightarrow> nat \<Rightarrow> 'v outcome option"
  where
  "shrink_loop s log_u_prime xl xr rng k =
     (let x_prime = uniform xl xr (rng k) in
      case priv_log_p s x_prime of
        (s', log_px_prime) \<Rightarrow>
          if log_px_prime > log_u_prime
          then Some \<lparr>out_self = s'\<lparr>ss_x := x_prime\<rparr>, out_value = x_prime,
                      out_log_u = log_u_prime, out_xl = xl, out_xr = xr,
                      out_cursor = Suc k\<rparr>
          else (case adjust_interval s' xl xr x_prime of
                  (xl', xr') \<Rightarrow> shrink_loop s' log_u_prime xl' xr' rng (Suc k)))"

declare step_out_left.simps [code]
declare step_out_right.simps [code]
declare shrink_loop.simps [code]

text \<open>
  \<open>SliceSampling.sample\<close>. The functions \<open>np.log\<close> and \<open>np.exp\<close> belong to numpy, not to the repository,
  and are parameters: \<open>np_exp\<close> turns a log-density into a density, \<open>np_log\<close> turns the drawn
  height into the slice level. The first draw of the call gives the height, the second the
  offset \<open>r\<close>, the following ones the proposals.
\<close>

definition SliceSampling_sample ::
  "(real \<Rightarrow> 'v) \<Rightarrow> ('v \<Rightarrow> real) \<Rightarrow> 'v::ord SliceSampling \<Rightarrow> (nat \<Rightarrow> real) \<Rightarrow> nat
     \<Rightarrow> 'v outcome option" where
  "SliceSampling_sample np_log np_exp s rng k =
     (let s0 = s\<lparr>ss_samples := ss_samples s + 1\<rparr> in
      case priv_log_p s0 (ss_x s0) of
        (s1, log_px) \<Rightarrow>
          let log_u_prime = np_log (uniform 0 (np_exp log_px) (rng k));
              r = uniform 0 1 (rng (Suc k))
          in case create_interval s1 r of
               (xl, xr) \<Rightarrow>
                 (case step_out s1 log_u_prime xl xr of
                    None \<Rightarrow> None
                  | Some (s2, xl', xr') \<Rightarrow>
                      shrink_loop s2 log_u_prime xl' xr' rng (Suc (Suc k))))"

text \<open>
  The driving loop of the notebooks, \<open>[sampling.sample() for _ in range(N)]\<close>: the samples
  of \<open>n\<close> successive calls, with the object and the cursor they leave.
\<close>

fun SliceSampling_run ::
  "(real \<Rightarrow> 'v) \<Rightarrow> ('v \<Rightarrow> real) \<Rightarrow> nat \<Rightarrow> 'v::ord SliceSampling \<Rightarrow> (nat \<Rightarrow> real) \<Rightarrow> nat
     \<Rightarrow> (real list \<times> 'v SliceSampling \<times> nat) option" where
  "SliceSampling_run np_log np_exp 0 s rng k = Some ([], s, k)"
| "SliceSampling_run np_log np_exp (Suc n) s rng k =
     (case SliceSampling_sample np_log np_exp s rng k of
        None \<Rightarrow> None
      | Some out \<Rightarrow>
          (case SliceSampling_run np_log np_exp n (out_self out) rng (out_cursor out) of
             None \<Rightarrow> None
           | Some (vs, s', k') \<Rightarrow> Some (out_value out # vs, s', k')))"

text \<open>
  The postcondition of the main loop, as a predicate on its arguments and its outcome: the
  loop consumed at least one draw and counted one evaluation for each, the accepted point
  lies above the slice level and is the last proposal; and, when the bracket it starts from
  contains \<open>x\<close> and the draws are unit draws, the bracket at the \<open>return\<close> lies within it and
  contains both \<open>x\<close> and the accepted point.
\<close>

definition shrink_post ::
  "'v::ord SliceSampling \<Rightarrow> 'v \<Rightarrow> real \<Rightarrow> real \<Rightarrow> (nat \<Rightarrow> real) \<Rightarrow> nat \<Rightarrow> 'v outcome \<Rightarrow> bool"
  where
  "shrink_post s log_u xl xr rng k out \<longleftrightarrow>
     k < out_cursor out
     \<and> out_self out =
         s\<lparr>ss_x := out_value out, ss_evals := ss_evals s + int (out_cursor out - k)\<rparr>
     \<and> out_log_u out = log_u
     \<and> log_u < ss_log_p s (out_value out)
     \<and> out_value out = uniform (out_xl out) (out_xr out) (rng (out_cursor out - 1))
     \<and> (xl \<le> ss_x s \<and> ss_x s \<le> xr \<and> (\<forall>i. 0 \<le> rng i \<and> rng i \<le> 1) \<longrightarrow>
          xl \<le> out_xl out \<and> out_xr out \<le> xr
          \<and> out_xl out \<le> ss_x s \<and> ss_x s \<le> out_xr out
          \<and> out_xl out \<le> out_value out \<and> out_value out \<le> out_xr out)"

section \<open>Log-densities with a value for zero probability\<close>

text \<open>
  A target density is real-valued or \<open>-\<infinity>\<close> where the probability is zero. \<open>np.exp\<close> and
  \<open>np.log\<close> on these values: \<open>exp(-inf) = 0\<close> and \<open>log(0) = -inf\<close>. (\<open>np.log\<close> of a negative
  number is NaN; the height drawn in \<open>sample\<close> is never negative for unit draws.)
\<close>

datatype logval = NegInf | Fin real

instantiation logval :: linorder
begin

fun less_eq_logval :: "logval \<Rightarrow> logval \<Rightarrow> bool" where
  "less_eq_logval NegInf b = True"
| "less_eq_logval (Fin a) NegInf = False"
| "less_eq_logval (Fin a) (Fin b) = (a \<le> b)"

fun less_logval :: "logval \<Rightarrow> logval \<Rightarrow> bool" where
  "less_logval a NegInf = False"
| "less_logval NegInf (Fin b) = True"
| "less_logval (Fin a) (Fin b) = (a < b)"

instance
proof
  fix a b c :: logval
  show "(a < b) = (a \<le> b \<and> \<not> b \<le> a)" by (cases a; cases b) auto
  show "a \<le> a" by (cases a) auto
  show "a \<le> b \<Longrightarrow> b \<le> c \<Longrightarrow> a \<le> c" by (cases a; cases b; cases c) auto
  show "a \<le> b \<Longrightarrow> b \<le> a \<Longrightarrow> a = b" by (cases a; cases b) auto
  show "a \<le> b \<or> b \<le> a" by (cases a; cases b) auto
qed

end

definition logval_exp :: "logval \<Rightarrow> real" where
  "logval_exp l = (case l of NegInf \<Rightarrow> 0 | Fin a \<Rightarrow> exp a)"

definition logval_log :: "real \<Rightarrow> logval" where
  "logval_log u = (if u = 0 then NegInf else Fin (ln u))"

section \<open>Arrays\<close>

text \<open>
  The states and directions of \<open>MultiSampling\<close> are one-dimensional numpy arrays, here lists
  of reals. \<open>ux*d\<close> multiplies every entry; \<open>+\<close> adds entry by entry when the lengths agree,
  repeats the single entry of an array of length one (numpy's broadcasting), and raises
  \<open>ValueError\<close> for any other pair of lengths. List assignment out of range raises
  \<open>IndexError\<close>. These are the only exceptions the samplers can meet.
\<close>

datatype error = ValueError | IndexError

definition np_scale :: "real \<Rightarrow> real list \<Rightarrow> real list" where
  "np_scale u d = map (\<lambda>e. u * e) d"

definition np_add :: "real list \<Rightarrow> real list \<Rightarrow> error + real list" where
  "np_add a b =
     (if length a = length b then Inr (map (\<lambda>(e, f). e + f) (zip a b))
      else if length b = 1 then Inr (map (\<lambda>e. e + hd b) a)
      else if length a = 1 then Inr (map (\<lambda>f. hd a + f) b)
      else Inl ValueError)"

section \<open>MultiSampling\<close>

text \<open>
  \<open>uni_sampler\<close> is called with a one-dimensional log-density and an offset, and the object
  it returns is asked for one sample. The field holds the two steps as one function of the
  random source \<open>'r\<close>: \<open>uni_sampler(uni_log_p, 0).sample()\<close>. The density it receives is a
  closure over the array addition, so it may raise; so may the sampler, and it may not
  return.
\<close>

record ('v, 'r) MultiSampling =
  ms_uni_sampler :: "(real \<Rightarrow> error + 'v) \<Rightarrow> real \<Rightarrow> 'r \<Rightarrow> (error + real \<times> 'r) option"
  ms_log_p :: "real list \<Rightarrow> 'v"
  ms_x :: "real list"
  ms_directions :: "real list list"

text \<open>\<open>lambda ux: self.log_p(self.x + ux*d)\<close>, with \<open>self.x\<close> as it is during the call.\<close>

definition uni_log_p :: "(real list \<Rightarrow> 'v) \<Rightarrow> real list \<Rightarrow> real list \<Rightarrow> real \<Rightarrow> error + 'v" where
  "uni_log_p log_p x d ux =
     (case np_add x (np_scale ux d) of Inl e \<Rightarrow> Inl e | Inr y \<Rightarrow> Inr (log_p y))"

text \<open>
  \<open>for d in self.directions\<close>. An exception ends the call; \<open>self.x\<close> then stays as the
  directions before it left it.
\<close>

fun MultiSampling_loop ::
  "('v, 'r) MultiSampling \<Rightarrow> real list list \<Rightarrow> 'r \<Rightarrow> (error + ('v, 'r) MultiSampling \<times> 'r) option"
  where
  "MultiSampling_loop s [] g = Some (Inr (s, g))"
| "MultiSampling_loop s (d # ds) g =
     (case ms_uni_sampler s (uni_log_p (ms_log_p s) (ms_x s) d) 0 g of
        None \<Rightarrow> None
      | Some (Inl e) \<Rightarrow> Some (Inl e)
      | Some (Inr (ux_prime, g')) \<Rightarrow>
          (case np_add (ms_x s) (np_scale ux_prime d) of
             Inl e \<Rightarrow> Some (Inl e)
           | Inr x' \<Rightarrow> MultiSampling_loop (s\<lparr>ms_x := x'\<rparr>) ds g'))"

definition MultiSampling_sample ::
  "('v, 'r) MultiSampling \<Rightarrow> 'r \<Rightarrow> (error + ('v, 'r) MultiSampling \<times> real list \<times> 'r) option"
  where
  "MultiSampling_sample s g =
     (case MultiSampling_loop s (ms_directions s) g of
        None \<Rightarrow> None
      | Some (Inl e) \<Rightarrow> Some (Inl e)
      | Some (Inr (s', g')) \<Rightarrow> Some (Inr (s', ms_x s', g')))"

text \<open>
  The factory of the notebook, \<open>lambda log_p, x: SliceSampling(log_p, x, w)\<close>, followed by
  \<open>.sample()\<close>, over a stream of unit draws with the cursor as the random source. The first
  thing \<open>SliceSampling.sample\<close> does is to evaluate the density at the offset, so a density
  that raises there ends the call; one that does not is taken to raise nowhere, which
  holds for \<open>uni_log_p\<close>, where only the lengths decide.
\<close>

definition slice_uni_sampler ::
  "real \<Rightarrow> (nat \<Rightarrow> real) \<Rightarrow> (real \<Rightarrow> error + logval) \<Rightarrow> real \<Rightarrow> nat \<Rightarrow> (error + real \<times> nat) option"
  where
  "slice_uni_sampler w rng lp x0 k =
     (case lp x0 of
        Inl e \<Rightarrow> Some (Inl e)
      | Inr _ \<Rightarrow>
          (case SliceSampling_sample logval_log logval_exp
                  (SliceSampling_init (\<lambda>y. case lp y of Inl _ \<Rightarrow> NegInf | Inr v \<Rightarrow> v) x0 w) rng k of
             None \<Rightarrow> None
           | Some out \<Rightarrow> Some (Inr (out_value out, out_cursor out))))"

section \<open>GibbsSampling\<close>

text \<open>
  The state of \<open>GibbsSampling\<close> is a Python list, an object that \<open>x[i] = ...\<close> changes in
  place and that the caller keeps references to. The list objects live in a heap, a list
  of their contents indexed by address; a new object takes the next address. The entries
  \<open>'a\<close> of a state are never changed in place, only replaced. A transition reads the
  working list and the random source \<open>'r\<close> and writes to neither list.
\<close>

type_synonym 'a heap = "'a list list"

record ('a, 'r) GibbsSampling =
  gs_transitions :: "('a list \<Rightarrow> 'r \<Rightarrow> 'a \<times> 'r) list"
  gs_x :: nat

text \<open>
  \<open>for i in range(K): x[i] = self.transitions[i](x)\<close> on the list at address \<open>x\<close>. The
  transition is called before the assignment can fail.
\<close>

fun GibbsSampling_loop ::
  "('a list \<Rightarrow> 'r \<Rightarrow> 'a \<times> 'r) list \<Rightarrow> nat list \<Rightarrow> nat \<Rightarrow> 'a heap \<Rightarrow> 'r
     \<Rightarrow> (error \<times> 'a heap \<times> 'r) + ('a heap \<times> 'r)" where
  "GibbsSampling_loop ts [] x h g = Inr (h, g)"
| "GibbsSampling_loop ts (i # is) x h g =
     (case (ts ! i) (h ! x) g of
        (v, g') \<Rightarrow>
          if i < length (h ! x) then GibbsSampling_loop ts is x (h[x := (h ! x)[i := v]]) g'
          else Inl (IndexError, h, g'))"

text \<open>
  \<open>sample\<close>: \<open>x = self.x[:]\<close> allocates the copy, the loop writes into it, \<open>self.x = x\<close>
  and \<open>return x\<close> hand out its address. An exception leaves \<open>self.x\<close> as it was.
\<close>

definition GibbsSampling_sample ::
  "('a, 'r) GibbsSampling \<Rightarrow> 'a heap \<Rightarrow> 'r
     \<Rightarrow> (error \<times> 'a heap \<times> 'r) + (('a, 'r) GibbsSampling \<times> nat \<times> 'a heap \<times> 'r)" where
  "GibbsSampling_sample s h g =
     (let x = length h;
          h0 = h @ [h ! gs_x s];
          K = length (gs_transitions s)
      in case GibbsSampling_loop (gs_transitions s) [0..<K] x h0 g of
           Inl e \<Rightarrow> Inl e
         | Inr (h', g') \<Rightarrow> Inr (s\<lparr>gs_x := x\<rparr>, x, h', g'))"

text \<open>\<open>n\<close> successive calls: the addresses they return, in order.\<close>

fun GibbsSampling_run ::
  "nat \<Rightarrow> ('a, 'r) GibbsSampling \<Rightarrow> 'a heap \<Rightarrow> 'r
     \<Rightarrow> (error \<times> 'a heap \<times> 'r) + (nat list \<times> ('a, 'r) GibbsSampling \<times> 'a heap \<times> 'r)" where
  "GibbsSampling_run 0 s h g = Inr ([], s, h, g)"
| "GibbsSampling_run (Suc n) s h g =
     (case GibbsSampling_sample s h g of
        Inl e \<Rightarrow> Inl e
      | Inr (s1, a, h1, g1) \<Rightarrow>
          (case GibbsSampling_run n s1 h1 g1 of
             Inl e \<Rightarrow> Inl e
           | Inr (as, s', h', g') \<Rightarrow> Inr (a # as, s', h', g')))"

section \<open>Sample inputs\<close>

text \<open>The log-density \<open>-|y|\<close> (a Laplace density, unnormalised).\<close>

definition laplace :: "real \<Rightarrow> logval" where
  "laplace y = Fin (- \<bar>y\<bar>)"

text \<open>
  A stream of unit draws for two calls. The height \<open>exp (-1)\<close> puts the slice level one
  below the log-density at \<open>x\<close>; the first call then reads the offset \<open>1/2\<close> and proposals at
  \<open>1/12\<close> and \<open>3/4\<close> of the bracket, the second the offset \<open>1/2\<close> and a proposal at \<open>3/4\<close>.
\<close>

definition draws :: "nat \<Rightarrow> real" where
  "draws i =
     (if i = 0 \<or> i = 4 then exp (- 1) else if i = 2 then 1 / 12
      else if i = 3 \<or> i = 6 then 3 / 4 else 1 / 2)"

text \<open>The same draws up to the seventh, and zeros from there on.\<close>

definition draws_then_zero :: "nat \<Rightarrow> real" where
  "draws_then_zero i = (if i < 7 then draws i else 0)"

text \<open>A density that is zero everywhere except at the point \<open>c\<close>.\<close>

definition point_mass :: "real \<Rightarrow> real \<Rightarrow> logval" where
  "point_mass c y = (if y = c then Fin 0 else NegInf)"



text \<open>Constant streams of draws.\<close>

definition halves :: "nat \<Rightarrow> real" where
  "halves i = 1 / 2"

definition quarters :: "nat \<Rightarrow> real" where
  "quarters i = 1 / 4"

definition zeros :: "nat \<Rightarrow> real" where
  "zeros i = 0"

text \<open>
  The conditional of the notebook's Gaussian example, \<open>cond_prob(i, x)\<close>:
  \<open>np.random.normal(loc, scale)\<close> is \<open>loc + scale * standard_normal()\<close>, the random source
  a cursor into a stream of standard normal draws. The state has two entries.
\<close>

definition cond_prob :: "(nat \<Rightarrow> real) \<Rightarrow> nat \<Rightarrow> real list \<Rightarrow> nat \<Rightarrow> real \<times> nat" where
  "cond_prob normals i x k =
     (99 / 100 * x ! i + sqrt (1 - (99 / 100)\<^sup>2) * normals k, Suc k)"

text \<open>
  \<open>GibbsSampling([lambda x: cond_prob(1,x), lambda x: cond_prob(0,x)], ...)\<close>, the state
  list at address 0 of the heap, every normal draw zero.
\<close>

definition gibbs_gauss :: "(real, nat) GibbsSampling" where
  "gibbs_gauss = \<lparr>gs_transitions = [cond_prob zeros 1, cond_prob zeros 0], gs_x = 0\<rparr>"

text \<open>
  The two-dimensional version of the notebook's example: the log-density \<open>-(|x\<^sub>0| + |x\<^sub>1|)\<close>,
  the coordinate axes as directions, and \<open>SliceSampling\<close> with \<open>w = 1\<close> as the sampler.
\<close>

definition laplace2 :: "real list \<Rightarrow> logval" where
  "laplace2 x = Fin (- sum_list (map abs x))"

definition multi_laplace :: "(logval, nat) MultiSampling" where
  "multi_laplace =
     \<lparr>ms_uni_sampler = slice_uni_sampler 1 draws, ms_log_p = laplace2, ms_x = [0, 0],
      ms_directions = [[1, 0], [0, 1]]\<rparr>"

text \<open>The same sampler with a single direction of length one, for a state of length two.\<close>

definition multi_broadcast :: "(logval, nat) MultiSampling" where
  "multi_broadcast = multi_laplace\<lparr>ms_directions := [[1]]\<rparr>"

text \<open>
  A Gibbs sampler whose state entries are arrays: the first transition returns an array of
  length three for an entry of length two, the second returns the entry it finds.
\<close>

definition gibbs_reshape :: "(real list, unit) GibbsSampling" where
  "gibbs_reshape =
     \<lparr>gs_transitions = [\<lambda>x g. ([1, 2, 3], g), \<lambda>x g. (x ! 1, g)], gs_x = 0\<rparr>"

section \<open>SliceSampling: the loops\<close>

lemma step_out_left_result:
  assumes "step_out_left s log_u xl = Some (s', xl')"
  shows "\<exists>n::nat. s' = s\<lparr>ss_evals := ss_evals s + int n + 1\<rparr>
           \<and> xl' = xl - real n * ss_w s
           \<and> (\<forall>i<n. log_u < ss_log_p s (xl - real i * ss_w s))
           \<and> \<not> log_u < ss_log_p s xl'"
proof -
  have "\<exists>n::nat. fst y = s\<lparr>ss_evals := ss_evals s + int n + 1\<rparr>
           \<and> snd y = xl - real n * ss_w s
           \<and> (\<forall>i<n. log_u < ss_log_p s (xl - real i * ss_w s))
           \<and> \<not> log_u < ss_log_p s (snd y)"
    if "step_out_left s log_u xl = Some y" for y
    using that
  proof (induction rule: step_out_left.raw_induct[rotated 1, consumes 1])
    case (1 f s log_u xl y)
    show ?case
    proof (cases "log_u < ss_log_p s xl")
      case False
      with 1(2) have "y = (s\<lparr>ss_evals := ss_evals s + 1\<rparr>, xl)"
        by (simp add: priv_log_p_def)
      with False show ?thesis
        by (intro exI[of _ 0]) simp
    next
      case True
      let ?s1 = "s\<lparr>ss_evals := ss_evals s + 1\<rparr>"
      from True 1(2) have "f ?s1 log_u (xl - ss_w s) = Some y"
        by (simp add: priv_log_p_def)
      from 1(1)[OF this] obtain n :: nat where n:
        "fst y = ?s1\<lparr>ss_evals := ss_evals ?s1 + int n + 1\<rparr>"
        "snd y = xl - ss_w s - real n * ss_w ?s1"
        "\<forall>i<n. log_u < ss_log_p ?s1 (xl - ss_w s - real i * ss_w ?s1)"
        "\<not> log_u < ss_log_p ?s1 (snd y)"
        by auto
      have "\<forall>i<Suc n. log_u < ss_log_p s (xl - real i * ss_w s)"
      proof (intro allI impI)
        fix i assume "i < Suc n"
        show "log_u < ss_log_p s (xl - real i * ss_w s)"
        proof (cases i)
          case 0 with True show ?thesis by simp
        next
          case (Suc j)
          with \<open>i < Suc n\<close> have "j < n" by simp
          with n(3) have "log_u < ss_log_p s (xl - ss_w s - real j * ss_w s)" by simp
          moreover have "xl - ss_w s - real j * ss_w s = xl - real i * ss_w s"
            using Suc by (simp add: algebra_simps)
          ultimately show ?thesis by simp
        qed
      qed
      moreover have "fst y = s\<lparr>ss_evals := ss_evals s + int (Suc n) + 1\<rparr>"
        using n(1) by simp
      moreover have "snd y = xl - real (Suc n) * ss_w s"
        using n(2) by (simp add: algebra_simps)
      moreover have "\<not> log_u < ss_log_p s (snd y)" using n(4) by simp
      ultimately show ?thesis by blast
    qed
  qed
  from this[OF assms] show ?thesis by simp
qed

lemma uniform_between:
  assumes "low \<le> high" "0 \<le> v" "v \<le> 1"
  shows "low \<le> uniform low high v" "uniform low high v \<le> high"
proof -
  have "0 \<le> (high - low) * v" using assms by simp
  then show "low \<le> uniform low high v" by (simp add: uniform_def)
  have "(high - low) * v \<le> (high - low) * 1"
    using assms by (intro mult_left_mono) simp_all
  then show "uniform low high v \<le> high" by (simp add: uniform_def)
qed

lemma adjust_interval_keeps:
  assumes "xl \<le> ss_x s" "ss_x s \<le> xr"
  shows "fst (adjust_interval s xl xr y) \<le> ss_x s" "ss_x s \<le> snd (adjust_interval s xl xr y)"
  using assms by (simp_all add: adjust_interval_def)

lemma adjust_interval_inside:
  assumes "xl \<le> y" "y \<le> xr"
  shows "xl \<le> fst (adjust_interval s xl xr y)" "snd (adjust_interval s xl xr y) \<le> xr"
  using assms by (simp_all add: adjust_interval_def)

lemma shrink_loop_post:
  assumes "shrink_loop s log_u xl xr rng k = Some out"
  shows "shrink_post s log_u xl xr rng k out"
  using assms
proof (induction rule: shrink_loop.raw_induct[rotated 1, consumes 1])
  case (1 f s log_u xl xr rng k out)
  let ?y = "uniform xl xr (rng k)"
  let ?s1 = "s\<lparr>ss_evals := ss_evals s + 1\<rparr>"
  show ?case
  proof (cases "log_u < ss_log_p s ?y")
    case True
    with 1(2) have out: "out = \<lparr>out_self = ?s1\<lparr>ss_x := ?y\<rparr>, out_value = ?y,
        out_log_u = log_u, out_xl = xl, out_xr = xr, out_cursor = Suc k\<rparr>"
      by (simp add: priv_log_p_def Let_def)
    show ?thesis
      unfolding shrink_post_def using True uniform_between[of xl xr "rng k"]
      by (auto simp: out)
  next
    case False
    obtain xl' xr' where adj: "adjust_interval ?s1 xl xr ?y = (xl', xr')"
      by (cases "adjust_interval ?s1 xl xr ?y")
    with False 1(2) have "f ?s1 log_u xl' xr' rng (Suc k) = Some out"
      by (simp add: priv_log_p_def Let_def)
    from 1(1)[OF this] have IH: "shrink_post ?s1 log_u xl' xr' rng (Suc k) out" .
    have keep: "xl' \<le> ss_x s \<and> ss_x s \<le> xr'" if "xl \<le> ss_x s" "ss_x s \<le> xr"
      using adjust_interval_keeps[of xl ?s1 xr ?y] that adj by simp
    have inside: "xl \<le> xl' \<and> xr' \<le> xr"
      if "xl \<le> ss_x s" "ss_x s \<le> xr" "0 \<le> rng k" "rng k \<le> 1"
    proof -
      from that have "xl \<le> xr" by simp
      from uniform_between[OF this that(3,4)]
      show ?thesis using adjust_interval_inside[of xl ?y xr ?s1] adj by simp
    qed
    have ih: "Suc k < out_cursor out"
      "out_self out = ?s1\<lparr>ss_x := out_value out, ss_evals := ss_evals ?s1 + int (out_cursor out - Suc k)\<rparr>"
      "out_log_u out = log_u" "log_u < ss_log_p ?s1 (out_value out)"
      "out_value out = uniform (out_xl out) (out_xr out) (rng (out_cursor out - 1))"
      using IH unfolding shrink_post_def by blast+
    have cur: "int (out_cursor out - k) = int (out_cursor out - Suc k) + 1"
      using ih(1) by simp
    show ?thesis
      unfolding shrink_post_def
    proof (intro conjI impI)
      show "k < out_cursor out" using ih(1) by simp
      show "out_self out = s\<lparr>ss_x := out_value out, ss_evals := ss_evals s + int (out_cursor out - k)\<rparr>"
        unfolding ih(2) cur by simp
      show "out_log_u out = log_u" by (rule ih(3))
      show "log_u < ss_log_p s (out_value out)" using ih(4) by simp
      show "out_value out = uniform (out_xl out) (out_xr out) (rng (out_cursor out - 1))"
        by (rule ih(5))
    next
      assume a: "xl \<le> ss_x s \<and> ss_x s \<le> xr \<and> (\<forall>i. 0 \<le> rng i \<and> rng i \<le> 1)"
      then have k: "xl' \<le> ss_x s \<and> ss_x s \<le> xr'" and i: "xl \<le> xl' \<and> xr' \<le> xr"
        using keep inside by simp_all
      have "xl' \<le> ss_x ?s1 \<and> ss_x ?s1 \<le> xr' \<and> (\<forall>i. 0 \<le> rng i \<and> rng i \<le> 1)"
        using a k by simp
      with IH have *: "xl' \<le> out_xl out \<and> out_xr out \<le> xr'
          \<and> out_xl out \<le> ss_x ?s1 \<and> ss_x ?s1 \<le> out_xr out
          \<and> out_xl out \<le> out_value out \<and> out_value out \<le> out_xr out"
        unfolding shrink_post_def by blast
      show "xl \<le> out_xl out" "out_xr out \<le> xr" "out_xl out \<le> ss_x s" "ss_x s \<le> out_xr out"
        "out_xl out \<le> out_value out" "out_value out \<le> out_xr out"
        using * i by simp_all
    qed
  qed
qed

lemma step_out_right_result:
  assumes "step_out_right s log_u xr = Some (s', xr')"
  shows "\<exists>n::nat. s' = s\<lparr>ss_evals := ss_evals s + int n + 1\<rparr>
           \<and> xr' = xr + real n * ss_w s
           \<and> (\<forall>i<n. log_u < ss_log_p s (xr + real i * ss_w s))
           \<and> \<not> log_u < ss_log_p s xr'"
proof -
  have "\<exists>n::nat. fst y = s\<lparr>ss_evals := ss_evals s + int n + 1\<rparr>
           \<and> snd y = xr + real n * ss_w s
           \<and> (\<forall>i<n. log_u < ss_log_p s (xr + real i * ss_w s))
           \<and> \<not> log_u < ss_log_p s (snd y)"
    if "step_out_right s log_u xr = Some y" for y
    using that
  proof (induction rule: step_out_right.raw_induct[rotated 1, consumes 1])
    case (1 f s log_u xr y)
    show ?case
    proof (cases "log_u < ss_log_p s xr")
      case False
      with 1(2) have "y = (s\<lparr>ss_evals := ss_evals s + 1\<rparr>, xr)"
        by (simp add: priv_log_p_def)
      with False show ?thesis
        by (intro exI[of _ 0]) simp
    next
      case True
      let ?s1 = "s\<lparr>ss_evals := ss_evals s + 1\<rparr>"
      from True 1(2) have "f ?s1 log_u (xr + ss_w s) = Some y"
        by (simp add: priv_log_p_def)
      from 1(1)[OF this] obtain n :: nat where n:
        "fst y = ?s1\<lparr>ss_evals := ss_evals ?s1 + int n + 1\<rparr>"
        "snd y = xr + ss_w s + real n * ss_w ?s1"
        "\<forall>i<n. log_u < ss_log_p ?s1 (xr + ss_w s + real i * ss_w ?s1)"
        "\<not> log_u < ss_log_p ?s1 (snd y)"
        by auto
      have "\<forall>i<Suc n. log_u < ss_log_p s (xr + real i * ss_w s)"
      proof (intro allI impI)
        fix i assume "i < Suc n"
        show "log_u < ss_log_p s (xr + real i * ss_w s)"
        proof (cases i)
          case 0 with True show ?thesis by simp
        next
          case (Suc j)
          with \<open>i < Suc n\<close> have "j < n" by simp
          with n(3) have "log_u < ss_log_p s (xr + ss_w s + real j * ss_w s)" by simp
          moreover have "xr + ss_w s + real j * ss_w s = xr + real i * ss_w s"
            using Suc by (simp add: algebra_simps)
          ultimately show ?thesis by simp
        qed
      qed
      moreover have "fst y = s\<lparr>ss_evals := ss_evals s + int (Suc n) + 1\<rparr>"
        using n(1) by simp
      moreover have "snd y = xr + real (Suc n) * ss_w s"
        using n(2) by (simp add: algebra_simps)
      moreover have "\<not> log_u < ss_log_p s (snd y)" using n(4) by simp
      ultimately show ?thesis by blast
    qed
  qed
  from this[OF assms] show ?thesis by simp
qed

lemma step_out_result:
  assumes "step_out s log_u xl xr = Some (s', xl', xr')"
  shows "\<exists>nl nr::nat. s' = s\<lparr>ss_evals := ss_evals s + (int nl + 1) + (int nr + 1)\<rparr>
           \<and> xl' = xl - real nl * ss_w s \<and> xr' = xr + real nr * ss_w s
           \<and> \<not> log_u < ss_log_p s xl' \<and> \<not> log_u < ss_log_p s xr'
           \<and> (\<forall>i<nl. log_u < ss_log_p s (xl - real i * ss_w s))
           \<and> (\<forall>i<nr. log_u < ss_log_p s (xr + real i * ss_w s))"
proof -
  from assms obtain s1 where l: "step_out_left s log_u xl = Some (s1, xl')"
    and r: "step_out_right s1 log_u xr = Some (s', xr')"
    by (auto simp: step_out_def split: option.splits)
  from step_out_left_result[OF l] obtain nl :: nat where nl:
    "s1 = s\<lparr>ss_evals := ss_evals s + int nl + 1\<rparr>" "xl' = xl - real nl * ss_w s"
    "\<not> log_u < ss_log_p s xl'" "\<forall>i<nl. log_u < ss_log_p s (xl - real i * ss_w s)" by blast
  from step_out_right_result[OF r] obtain nr :: nat where nr:
    "s' = s1\<lparr>ss_evals := ss_evals s1 + int nr + 1\<rparr>" "xr' = xr + real nr * ss_w s1"
    "\<not> log_u < ss_log_p s1 xr'" "\<forall>i<nr. log_u < ss_log_p s1 (xr + real i * ss_w s1)" by blast
  have "s' = s\<lparr>ss_evals := ss_evals s + (int nl + 1) + (int nr + 1)\<rparr>"
    using nl(1) nr(1) by simp
  moreover have "xr' = xr + real nr * ss_w s" "\<not> log_u < ss_log_p s xr'"
    "\<forall>i<nr. log_u < ss_log_p s (xr + real i * ss_w s)"
    using nl(1) nr(2,3,4) by simp_all
  ultimately show ?thesis using nl(2,3,4) by blast
qed

lemma create_interval_contains:
  assumes "0 \<le> ss_w s" "0 \<le> r" "r \<le> 1"
  shows "fst (create_interval s r) \<le> ss_x s" "ss_x s \<le> snd (create_interval s r)"
proof -
  have "0 \<le> r * ss_w s" "0 \<le> (1 - r) * ss_w s" using assms by simp_all
  then show "fst (create_interval s r) \<le> ss_x s" "ss_x s \<le> snd (create_interval s r)"
    by (simp_all add: create_interval_def)
qed

text \<open>The pieces of a returning call of \<open>sample\<close>.\<close>

lemma SliceSampling_sample_SomeD:
  assumes "SliceSampling_sample np_log np_exp s rng k = Some out"
  defines "s1 \<equiv> s\<lparr>ss_samples := ss_samples s + 1, ss_evals := ss_evals s + 1\<rparr>"
  defines "log_u \<equiv> np_log (uniform 0 (np_exp (ss_log_p s (ss_x s))) (rng k))"
  shows "\<exists>s2 xl' xr'.
           step_out s1 log_u (fst (create_interval s (rng (Suc k)))) (snd (create_interval s (rng (Suc k))))
             = Some (s2, xl', xr')
           \<and> shrink_loop s2 log_u xl' xr' rng (Suc (Suc k)) = Some out"
proof -
  have ci: "create_interval (s\<lparr>ss_samples := ss_samples s + 1, ss_evals := ss_evals s + 1\<rparr>) r
        = create_interval s r" for r
    by (simp add: create_interval_def)
  show ?thesis
    using assms(1) unfolding s1_def log_u_def
    by (auto simp: SliceSampling_sample_def Let_def priv_log_p_def uniform_def ci split: prod.splits option.splits)
qed

text \<open>
  Claim C1. When \<open>sample\<close> accepts a proposal, the bracket at the \<open>return\<close> contains both
  the point \<open>x\<close> the call started from and the accepted point, and the accepted point lies
  strictly above the slice level. The bracket built by \<open># Create interval\<close> contains \<open>x\<close>,
  and \<open># Adjust interval\<close> keeps \<open>x\<close> inside any bracket that contains it. The step width
  is not negative and the draws are unit draws.
\<close>

theorem bracket_invariant_at_acceptance:
  assumes "SliceSampling_sample np_log np_exp s rng k = Some out"
    and "0 \<le> ss_w s"
    and "\<forall>i. 0 \<le> rng i \<and> rng i \<le> 1"
    and "xl \<le> ss_x t" and "ss_x t \<le> xr"
  shows "(fst (create_interval s (rng (Suc k))) \<le> ss_x s
            \<and> ss_x s \<le> snd (create_interval s (rng (Suc k))))
       \<and> (fst (adjust_interval t xl xr y) \<le> ss_x t \<and> ss_x t \<le> snd (adjust_interval t xl xr y))
       \<and> out_xl out \<le> ss_x s \<and> ss_x s \<le> out_xr out
       \<and> out_xl out \<le> out_value out \<and> out_value out \<le> out_xr out
       \<and> out_log_u out < ss_log_p s (out_value out)
       \<and> ss_x (out_self out) = out_value out"
proof -
  let ?s1 = "s\<lparr>ss_samples := ss_samples s + 1, ss_evals := ss_evals s + 1\<rparr>"
  let ?log_u = "np_log (uniform 0 (np_exp (ss_log_p s (ss_x s))) (rng k))"
  let ?xl = "fst (create_interval s (rng (Suc k)))"
  let ?xr = "snd (create_interval s (rng (Suc k)))"
  from SliceSampling_sample_SomeD[OF assms(1)] obtain s2 xl' xr' where
    so: "step_out ?s1 ?log_u ?xl ?xr = Some (s2, xl', xr')" and
    sh: "shrink_loop s2 ?log_u xl' xr' rng (Suc (Suc k)) = Some out"
    by blast
  have est: "?xl \<le> ss_x s" "ss_x s \<le> ?xr"
    using create_interval_contains[OF assms(2), of "rng (Suc k)"] assms(3) by simp_all
  from step_out_result[OF so] obtain nl nr :: nat where
    s2: "s2 = ?s1\<lparr>ss_evals := ss_evals ?s1 + (int nl + 1) + (int nr + 1)\<rparr>"
    and b: "xl' = ?xl - real nl * ss_w ?s1" "xr' = ?xr + real nr * ss_w ?s1"
    by blast
  have "0 \<le> real nl * ss_w s" "0 \<le> real nr * ss_w s" using assms(2) by simp_all
  with b est have in2: "xl' \<le> ss_x s2" "ss_x s2 \<le> xr'" by (simp_all add: s2)
  from shrink_loop_post[OF sh] have post: "shrink_post s2 ?log_u xl' xr' rng (Suc (Suc k)) out" .
  then have acc: "out_log_u out = ?log_u" "?log_u < ss_log_p s2 (out_value out)"
    "out_self out = s2\<lparr>ss_x := out_value out,
        ss_evals := ss_evals s2 + int (out_cursor out - Suc (Suc k))\<rparr>"
    unfolding shrink_post_def by blast+
  from post in2 assms(3) have br: "out_xl out \<le> ss_x s2 \<and> ss_x s2 \<le> out_xr out
      \<and> out_xl out \<le> out_value out \<and> out_value out \<le> out_xr out"
    unfolding shrink_post_def by blast
  have "ss_x s2 = ss_x s" "ss_log_p s2 = ss_log_p s" by (simp_all add: s2)
  with br acc est adjust_interval_keeps[OF assms(4,5), of y] show ?thesis
    by simp
qed

lemma draws_unit: "0 \<le> draws i \<and> draws i \<le> 1"
  by (simp add: draws_def)

lemma sample_laplace:
  "SliceSampling_sample logval_log logval_exp (SliceSampling_init laplace 0 1) draws 0 =
     Some \<lparr>out_self = \<lparr>ss_log_p = laplace, ss_x = 13 / 16, ss_w = 1, ss_samples = 1, ss_evals = 7\<rparr>,
           out_value = 13 / 16, out_log_u = Fin (- 1), out_xl = - 5 / 4, out_xr = 3 / 2,
           out_cursor = 4\<rparr>"
  by (simp add: SliceSampling_sample_def step_out_def step_out_left.simps step_out_right.simps
      shrink_loop.simps SliceSampling_init_def priv_log_p_def laplace_def logval_log_def
      logval_exp_def draws_def uniform_def create_interval_def adjust_interval_def Let_def)

theorem bracket_invariant_at_acceptance_witness:
  "SliceSampling_sample logval_log logval_exp (SliceSampling_init laplace 0 1) draws 0 =
     Some \<lparr>out_self = \<lparr>ss_log_p = laplace, ss_x = 13 / 16, ss_w = 1, ss_samples = 1, ss_evals = 7\<rparr>,
           out_value = 13 / 16, out_log_u = Fin (- 1), out_xl = - 5 / 4, out_xr = 3 / 2,
           out_cursor = 4\<rparr>
   \<and> (- 5 / 4 :: real) \<le> 13 / 16 \<and> (13 / 16 :: real) \<le> 3 / 2
   \<and> Fin (- 1) < laplace (13 / 16)
   \<and> fst (adjust_interval (SliceSampling_init laplace 0 1) (- 3 / 2) (3 / 2) (- 5 / 4)) = - 5 / 4"
  using bracket_invariant_at_acceptance[where t = "SliceSampling_init laplace 0 1"
      and xl = "- 3 / 2" and xr = "3 / 2" and y = "- 5 / 4", OF sample_laplace]
    draws_unit sample_laplace
  by (simp add: SliceSampling_init_def adjust_interval_def laplace_def)

text \<open>
  Claim C3. In a returning call of \<open>sample\<close> the step-out phase ends with both endpoints at
  or below the slice level. Every evaluation goes through \<open>_log_p\<close> and adds one to \<open>evals\<close>:
  the counter grows by one for the evaluation at \<open>x\<close>, by one for each point the left loop
  and the right loop test (\<open>nl + 1\<close> and \<open>nr + 1\<close> points, \<open>w\<close> apart), and by one for each
  proposal of the main loop (one per draw it takes).
\<close>

theorem step_out_endpoints_and_evals:
  fixes s :: "'v::linorder SliceSampling"
  assumes "SliceSampling_sample np_log np_exp s rng k = Some out"
  shows "\<exists>s2 xl' xr' (nl::nat) (nr::nat).
      step_out (s\<lparr>ss_samples := ss_samples s + 1, ss_evals := ss_evals s + 1\<rparr>) (out_log_u out)
          (fst (create_interval s (rng (Suc k)))) (snd (create_interval s (rng (Suc k))))
        = Some (s2, xl', xr')
    \<and> ss_log_p s xl' \<le> out_log_u out \<and> ss_log_p s xr' \<le> out_log_u out
    \<and> xl' = fst (create_interval s (rng (Suc k))) - real nl * ss_w s
    \<and> xr' = snd (create_interval s (rng (Suc k))) + real nr * ss_w s
    \<and> ss_evals s2 = ss_evals s + 1 + (int nl + 1) + (int nr + 1)
    \<and> shrink_loop s2 (out_log_u out) xl' xr' rng (Suc (Suc k)) = Some out
    \<and> ss_evals (out_self out) = ss_evals s2 + int (out_cursor out - Suc (Suc k))
    \<and> priv_log_p s (ss_x s) = (s\<lparr>ss_evals := ss_evals s + 1\<rparr>, ss_log_p s (ss_x s))"
proof -
  let ?s1 = "s\<lparr>ss_samples := ss_samples s + 1, ss_evals := ss_evals s + 1\<rparr>"
  let ?log_u = "np_log (uniform 0 (np_exp (ss_log_p s (ss_x s))) (rng k))"
  let ?xl = "fst (create_interval s (rng (Suc k)))"
  let ?xr = "snd (create_interval s (rng (Suc k)))"
  from SliceSampling_sample_SomeD[OF assms] obtain s2 xl' xr' where
    so: "step_out ?s1 ?log_u ?xl ?xr = Some (s2, xl', xr')" and
    sh: "shrink_loop s2 ?log_u xl' xr' rng (Suc (Suc k)) = Some out"
    by blast
  from shrink_loop_post[OF sh] have post:
    "out_log_u out = ?log_u"
    "out_self out = s2\<lparr>ss_x := out_value out,
        ss_evals := ss_evals s2 + int (out_cursor out - Suc (Suc k))\<rparr>"
    unfolding shrink_post_def by blast+
  from step_out_result[OF so] obtain nl nr :: nat where
    s2: "s2 = ?s1\<lparr>ss_evals := ss_evals ?s1 + (int nl + 1) + (int nr + 1)\<rparr>"
    and b: "xl' = ?xl - real nl * ss_w ?s1" "xr' = ?xr + real nr * ss_w ?s1"
    and e: "\<not> ?log_u < ss_log_p ?s1 xl'" "\<not> ?log_u < ss_log_p ?s1 xr'"
    by blast
  have "ss_log_p s xl' \<le> out_log_u out" "ss_log_p s xr' \<le> out_log_u out"
    using e post(1) by (simp_all add: not_less)
  moreover have "ss_evals s2 = ss_evals s + 1 + (int nl + 1) + (int nr + 1)"
    by (simp add: s2)
  moreover have "ss_evals (out_self out) = ss_evals s2 + int (out_cursor out - Suc (Suc k))"
    by (simp add: post(2))
  moreover have "xl' = ?xl - real nl * ss_w s" "xr' = ?xr + real nr * ss_w s"
    using b by simp_all
  moreover have "priv_log_p s (ss_x s) = (s\<lparr>ss_evals := ss_evals s + 1\<rparr>, ss_log_p s (ss_x s))"
    by (simp add: priv_log_p_def)
  ultimately show ?thesis using so sh post(1) by auto
qed

theorem step_out_endpoints_and_evals_witness:
  "SliceSampling_sample logval_log logval_exp (SliceSampling_init laplace 0 1) draws 0 =
     Some \<lparr>out_self = \<lparr>ss_log_p = laplace, ss_x = 13 / 16, ss_w = 1, ss_samples = 1, ss_evals = 7\<rparr>,
           out_value = 13 / 16, out_log_u = Fin (- 1), out_xl = - 5 / 4, out_xr = 3 / 2,
           out_cursor = 4\<rparr>
   \<and> (\<exists>s2 xl' xr'.
        step_out \<lparr>ss_log_p = laplace, ss_x = 0, ss_w = 1, ss_samples = 1, ss_evals = 1\<rparr> (Fin (- 1))
          (- 1 / 2) (1 / 2) = Some (s2, xl', xr')
        \<and> laplace xl' \<le> Fin (- 1) \<and> laplace xr' \<le> Fin (- 1)
        \<and> ss_evals s2 + 2 = 7)"
  using step_out_endpoints_and_evals[OF sample_laplace] sample_laplace
  by (auto simp: SliceSampling_init_def create_interval_def draws_def)

section \<open>SliceSampling: the draws a call reads\<close>

lemma shrink_loop_draws:
  assumes "shrink_loop s log_u xl xr rng k = Some out"
  shows "\<forall>rng'. (\<forall>i. k \<le> i \<and> i < out_cursor out \<longrightarrow> rng' i = rng i) \<longrightarrow>
           shrink_loop s log_u xl xr rng' k = Some out"
proof -
  have "k < out_cursor out \<and> (\<forall>rng'. (\<forall>i. k \<le> i \<and> i < out_cursor out \<longrightarrow> rng' i = rng i) \<longrightarrow>
           shrink_loop s log_u xl xr rng' k = Some out)"
    using assms
  proof (induction rule: shrink_loop.raw_induct[rotated 1, consumes 1])
    case (1 f s log_u xl xr rng k out)
    let ?y = "uniform xl xr (rng k)"
    let ?s1 = "s\<lparr>ss_evals := ss_evals s + 1\<rparr>"
    show ?case
    proof (cases "log_u < ss_log_p s ?y")
      case True
      with 1(2) have out: "out = \<lparr>out_self = ?s1\<lparr>ss_x := ?y\<rparr>, out_value = ?y,
          out_log_u = log_u, out_xl = xl, out_xr = xr, out_cursor = Suc k\<rparr>"
        by (simp add: priv_log_p_def Let_def)
      have "shrink_loop s log_u xl xr rng' k = Some out" if "rng' k = rng k" for rng'
        using True that by (subst shrink_loop.simps) (simp add: priv_log_p_def Let_def out)
      then show ?thesis by (simp add: out)
    next
      case False
      obtain xl' xr' where adj: "adjust_interval ?s1 xl xr ?y = (xl', xr')"
        by (cases "adjust_interval ?s1 xl xr ?y")
      with False 1(2) have "f ?s1 log_u xl' xr' rng (Suc k) = Some out"
        by (simp add: priv_log_p_def Let_def)
      from 1(1)[OF this] have lt: "Suc k < out_cursor out"
        and IH: "\<And>rng'. (\<forall>i. Suc k \<le> i \<and> i < out_cursor out \<longrightarrow> rng' i = rng i) \<Longrightarrow>
                   shrink_loop ?s1 log_u xl' xr' rng' (Suc k) = Some out"
        by blast+
      have "shrink_loop s log_u xl xr rng' k = Some out"
        if eq: "\<forall>i. k \<le> i \<and> i < out_cursor out \<longrightarrow> rng' i = rng i" for rng'
      proof -
        from eq lt have k: "rng' k = rng k" by simp
        from eq have "shrink_loop ?s1 log_u xl' xr' rng' (Suc k) = Some out"
          by (intro IH) simp
        with False adj k show ?thesis
          by (subst shrink_loop.simps) (simp add: priv_log_p_def Let_def)
      qed
      with lt show ?thesis by simp
    qed
  qed
  then show ?thesis by blast
qed

lemma SliceSampling_sample_cursor:
  assumes "SliceSampling_sample np_log np_exp s rng k = Some out"
  shows "Suc (Suc k) < out_cursor out"
proof -
  from SliceSampling_sample_SomeD[OF assms] obtain s2 xl' xr' lu where
    "shrink_loop s2 lu xl' xr' rng (Suc (Suc k)) = Some out" by blast
  from shrink_loop_post[OF this] show ?thesis by (simp add: shrink_post_def)
qed

lemma SliceSampling_sample_draws:
  assumes "SliceSampling_sample np_log np_exp s rng k = Some out"
    and eq: "\<forall>i. k \<le> i \<and> i < out_cursor out \<longrightarrow> rng' i = rng i"
  shows "SliceSampling_sample np_log np_exp s rng' k = Some out"
proof -
  let ?s1 = "s\<lparr>ss_samples := ss_samples s + 1, ss_evals := ss_evals s + 1\<rparr>"
  let ?log_u = "np_log (uniform 0 (np_exp (ss_log_p s (ss_x s))) (rng k))"
  let ?xl = "fst (create_interval s (rng (Suc k)))"
  let ?xr = "snd (create_interval s (rng (Suc k)))"
  from SliceSampling_sample_SomeD[OF assms(1)] obtain s2 xl' xr' where
    so: "step_out ?s1 ?log_u ?xl ?xr = Some (s2, xl', xr')" and
    sh: "shrink_loop s2 ?log_u xl' xr' rng (Suc (Suc k)) = Some out"
    by blast
  from SliceSampling_sample_cursor[OF assms(1)] eq
  have k: "rng' k = rng k" "rng' (Suc k) = rng (Suc k)" by simp_all
  from shrink_loop_draws[OF sh] eq
  have sh': "shrink_loop s2 ?log_u xl' xr' rng' (Suc (Suc k)) = Some out" by simp
  have "SliceSampling_sample np_log np_exp s rng' k =
      (case step_out ?s1 ?log_u ?xl ?xr of None \<Rightarrow> None
       | Some (s2, xl', xr') \<Rightarrow> shrink_loop s2 ?log_u xl' xr' rng' (Suc (Suc k)))"
    unfolding k[symmetric]
    by (simp add: SliceSampling_sample_def Let_def priv_log_p_def create_interval_def uniform_def
        cong: option.case_cong)
  with so sh' show ?thesis by simp
qed

text \<open>
  Claim C7. Two runs of \<open>n\<close> calls that start from the same object state and read the same
  draws return the same samples and leave the same object and cursor: when one run returns,
  so does any run whose stream agrees with its stream on the draws it read. This holds from
  every state and cursor, in particular for two objects built by \<open>__init__\<close> from identical
  \<open>(log_p, x, w)\<close>.
\<close>

theorem slice_sampling_deterministic:
  assumes "SliceSampling_run np_log np_exp n s rng k = Some (vs, s', k')"
    and "\<forall>i. k \<le> i \<and> i < k' \<longrightarrow> rng' i = rng i"
  shows "SliceSampling_run np_log np_exp n s rng' k = Some (vs, s', k') \<and> length vs = n \<and> k \<le> k'"
  using assms
proof (induction n arbitrary: s k vs)
  case 0
  then show ?case by simp
next
  case (Suc n)
  from Suc.prems(1) obtain out ws where
    c: "SliceSampling_sample np_log np_exp s rng k = Some out"
    and r: "SliceSampling_run np_log np_exp n (out_self out) rng (out_cursor out) = Some (ws, s', k')"
    and vs: "vs = out_value out # ws"
    by (auto split: option.splits)
  have kc: "k < out_cursor out" using SliceSampling_sample_cursor[OF c] by simp
  have "\<forall>i. out_cursor out \<le> i \<and> i < k' \<longrightarrow> rng' i = rng i"
    using Suc.prems(2) kc by simp
  from Suc.IH[OF r this]
  have r': "SliceSampling_run np_log np_exp n (out_self out) rng' (out_cursor out) = Some (ws, s', k')"
    and len: "length ws = n" and le: "out_cursor out \<le> k'" by simp_all
  have "\<forall>i. k \<le> i \<and> i < out_cursor out \<longrightarrow> rng' i = rng i"
    using Suc.prems(2) le by simp
  from SliceSampling_sample_draws[OF c this] r' vs len kc le show ?case by simp
qed

lemma run_laplace:
  "SliceSampling_run logval_log logval_exp 2 (SliceSampling_init laplace 0 1) draws 0 =
     Some ([13 / 16, 17 / 16],
           \<lparr>ss_log_p = laplace, ss_x = 17 / 16, ss_w = 1, ss_samples = 2, ss_evals = 15\<rparr>, 7)"
  by (simp add: numeral_2_eq_2 sample_laplace SliceSampling_sample_def step_out_def step_out_left.simps step_out_right.simps
      shrink_loop.simps SliceSampling_init_def priv_log_p_def laplace_def logval_log_def
      logval_exp_def draws_def uniform_def create_interval_def adjust_interval_def Let_def mult_exp_exp)

theorem slice_sampling_deterministic_witness:
  "SliceSampling_run logval_log logval_exp 2 (SliceSampling_init laplace 0 1) draws 0 =
     Some ([13 / 16, 17 / 16],
           \<lparr>ss_log_p = laplace, ss_x = 17 / 16, ss_w = 1, ss_samples = 2, ss_evals = 15\<rparr>, 7)
   \<and> map draws_then_zero [0..<7] = map draws [0..<7]
   \<and> draws_then_zero 7 \<noteq> draws 7
   \<and> SliceSampling_run logval_log logval_exp 2 (SliceSampling_init laplace 0 1) draws_then_zero 0 =
     Some ([13 / 16, 17 / 16],
           \<lparr>ss_log_p = laplace, ss_x = 17 / 16, ss_w = 1, ss_samples = 2, ss_evals = 15\<rparr>, 7)"
  using slice_sampling_deterministic[OF run_laplace, of draws_then_zero] run_laplace
  by (simp add: draws_then_zero_def draws_def)

section \<open>SliceSampling: calls that do not return\<close>

lemma shrink_loop_empty_slice:
  assumes "xl \<le> ss_x s" "ss_x s \<le> xr" "\<forall>i. 0 \<le> rng i \<and> rng i \<le> 1"
    and "\<forall>y. xl \<le> y \<and> y \<le> xr \<longrightarrow> \<not> log_u < ss_log_p s y"
  shows "shrink_loop s log_u xl xr rng k = None"
proof (rule ccontr)
  assume "shrink_loop s log_u xl xr rng k \<noteq> None"
  then obtain out where "shrink_loop s log_u xl xr rng k = Some out" by blast
  from shrink_loop_post[OF this] assms(1-3)
  have "log_u < ss_log_p s (out_value out)" "xl \<le> out_xl out" "out_xl out \<le> out_value out"
    "out_value out \<le> out_xr out" "out_xr out \<le> xr"
    unfolding shrink_post_def by blast+
  with assms(4) show False by force
qed

text \<open>
  Where the density is zero on the whole reach \<open>[x0 - w, x0 + w]\<close> of the first bracket, the
  slice level is \<open>-\<infinity>\<close>, no endpoint is stepped out and no proposal is accepted.
\<close>

lemma zero_density_never_returns:
  assumes "0 \<le> w" "\<forall>i. 0 \<le> rng i \<and> rng i \<le> 1"
    and zero: "\<forall>y. x0 - w \<le> y \<and> y \<le> x0 + w \<longrightarrow> lp y = NegInf"
  shows "SliceSampling_sample logval_log logval_exp (SliceSampling_init lp x0 w) rng k = None"
proof (rule ccontr)
  let ?s = "SliceSampling_init lp x0 w"
  let ?s1 = "?s\<lparr>ss_samples := ss_samples ?s + 1, ss_evals := ss_evals ?s + 1\<rparr>"
  let ?xl = "fst (create_interval ?s (rng (Suc k)))"
  let ?xr = "snd (create_interval ?s (rng (Suc k)))"
  assume "SliceSampling_sample logval_log logval_exp ?s rng k \<noteq> None"
  then obtain out where out: "SliceSampling_sample logval_log logval_exp ?s rng k = Some out"
    by blast
  have x0: "lp x0 = NegInf" using assms(1) zero by simp
  have lu: "logval_log (uniform 0 (logval_exp (ss_log_p ?s (ss_x ?s))) (rng k)) = NegInf"
    using x0 by (simp add: SliceSampling_init_def logval_exp_def logval_log_def uniform_def)
  from SliceSampling_sample_SomeD[OF out] lu obtain s2 xl' xr' where
    so: "step_out ?s1 NegInf ?xl ?xr = Some (s2, xl', xr')" and
    sh: "shrink_loop s2 NegInf xl' xr' rng (Suc (Suc k)) = Some out"
    by auto
  have r: "0 \<le> rng (Suc k)" "rng (Suc k) \<le> 1" using assms(2) by simp_all
  have w: "ss_w ?s = w" "ss_x ?s = x0" by (simp_all add: SliceSampling_init_def)
  have "0 \<le> rng (Suc k) * w" "rng (Suc k) * w \<le> w" "0 \<le> (1 - rng (Suc k)) * w"
    "(1 - rng (Suc k)) * w \<le> w"
    using r assms(1) by (auto intro!: mult_left_le_one_le mult_nonneg_nonneg)
  then have b: "x0 - w \<le> ?xl" "?xl \<le> x0" "x0 \<le> ?xr" "?xr \<le> x0 + w"
    by (simp_all add: create_interval_def w)
  from step_out_result[OF so] obtain nl nr :: nat where
    s2: "s2 = ?s1\<lparr>ss_evals := ss_evals ?s1 + (int nl + 1) + (int nr + 1)\<rparr>"
    and e: "xl' = ?xl - real nl * ss_w ?s1" "xr' = ?xr + real nr * ss_w ?s1"
    and st: "\<forall>i<nl. NegInf < ss_log_p ?s1 (?xl - real i * ss_w ?s1)"
      "\<forall>i<nr. NegInf < ss_log_p ?s1 (?xr + real i * ss_w ?s1)"
    by blast
  have "nl = 0"
  proof (rule ccontr)
    assume "nl \<noteq> 0"
    with st(1) have "NegInf < ss_log_p ?s1 (?xl - real (0::nat) * ss_w ?s1)" by blast
    then have "NegInf < lp ?xl" by (simp add: SliceSampling_init_def)
    moreover have "lp ?xl = NegInf" using zero b by simp
    ultimately show False by simp
  qed
  moreover have "nr = 0"
  proof (rule ccontr)
    assume "nr \<noteq> 0"
    with st(2) have "NegInf < ss_log_p ?s1 (?xr + real (0::nat) * ss_w ?s1)" by blast
    then have "NegInf < lp ?xr" by (simp add: SliceSampling_init_def)
    moreover have "lp ?xr = NegInf" using zero b by simp
    ultimately show False by simp
  qed
  ultimately have br: "xl' = ?xl" "xr' = ?xr" using e by simp_all
  have s2x: "ss_x s2 = x0" "ss_log_p s2 = lp"
    by (simp_all add: s2 SliceSampling_init_def)
  have "\<forall>y. xl' \<le> y \<and> y \<le> xr' \<longrightarrow> \<not> NegInf < ss_log_p s2 y"
    using b zero by (auto simp: br s2x)
  from shrink_loop_empty_slice[OF _ _ assms(2) this, of "Suc (Suc k)"] b sh
  show False by (simp add: br s2x)
qed

lemma point_mass_returns_only_c:
  assumes "SliceSampling_sample logval_log logval_exp (SliceSampling_init (point_mass c) x0 w) rng k
             = Some out"
    and "x0 \<noteq> c"
  shows "out_log_u out = NegInf" "out_value out = c"
proof -
  let ?s = "SliceSampling_init (point_mass c) x0 w"
  have lu: "logval_log (uniform 0 (logval_exp (ss_log_p ?s (ss_x ?s))) (rng k)) = NegInf"
    using assms(2) by (simp add: SliceSampling_init_def point_mass_def logval_exp_def
        logval_log_def uniform_def)
  from SliceSampling_sample_SomeD[OF assms(1)] lu obtain s2 xl' xr' where
    so: "step_out (?s\<lparr>ss_samples := ss_samples ?s + 1, ss_evals := ss_evals ?s + 1\<rparr>) NegInf
           (fst (create_interval ?s (rng (Suc k)))) (snd (create_interval ?s (rng (Suc k))))
         = Some (s2, xl', xr')"
    and sh: "shrink_loop s2 NegInf xl' xr' rng (Suc (Suc k)) = Some out"
    by auto
  from step_out_result[OF so] have s2: "ss_log_p s2 = point_mass c"
    by (auto simp: SliceSampling_init_def)
  from shrink_loop_post[OF sh] have "out_log_u out = NegInf" "NegInf < ss_log_p s2 (out_value out)"
    unfolding shrink_post_def by blast+
  then show "out_log_u out = NegInf" "out_value out = c"
    by (simp_all add: s2 point_mass_def split: if_splits)
qed

lemma step_out_stays:
  assumes "\<not> log_u < ss_log_p s xl" "\<not> log_u < ss_log_p s xr"
  shows "step_out s log_u xl xr = Some (s\<lparr>ss_evals := ss_evals s + 2\<rparr>, xl, xr)"
proof -
  have "step_out_left s log_u xl = Some (s\<lparr>ss_evals := ss_evals s + 1\<rparr>, xl)"
    using assms(1) by (subst step_out_left.simps) (simp add: priv_log_p_def)
  moreover have "step_out_right (s\<lparr>ss_evals := ss_evals s + 1\<rparr>) log_u xr
      = Some (s\<lparr>ss_evals := ss_evals s + 2\<rparr>, xr)"
    using assms(2) by (subst step_out_right.simps) (simp add: priv_log_p_def)
  ultimately show ?thesis by (simp add: step_out_def)
qed

text \<open>
  Claim C9, as the code has it. \<open>sample\<close> has no error to raise. For a target that is zero
  except at one point \<open>c\<close>, a call from a point \<open>x0\<close> other than \<open>c\<close> has the slice level \<open>-\<infinity>\<close>
  and can return nothing but \<open>c\<close> itself. When \<open>c\<close> is more than \<open>2 w\<close> away from \<open>x0\<close>, no
  endpoint is stepped out, every point of the bracket is at the slice level, so that every
  proposal is rejected, and the call never returns, whatever the unit draws. (The bracket
  reaches \<open>w\<close> from \<open>x0\<close>; in floating point its endpoints are rounded and may lie up to
  \<open>2 w\<close> away, which is why the distance is taken twice as large.)
\<close>

theorem degenerate_target_never_returns:
  assumes "0 \<le> w" and "\<forall>i. 0 \<le> rng i \<and> rng i \<le> 1" and "x0 \<noteq> c"
  shows "logval_log (uniform 0 (logval_exp (point_mass c x0)) (rng k)) = NegInf
       \<and> (\<forall>out. SliceSampling_sample logval_log logval_exp (SliceSampling_init (point_mass c) x0 w) rng k
                  = Some out \<longrightarrow> out_log_u out = NegInf \<and> out_value out = c)
       \<and> (c < x0 - 2 * w \<or> x0 + 2 * w < c \<longrightarrow>
            step_out ((SliceSampling_init (point_mass c) x0 w)\<lparr>ss_samples := 1, ss_evals := 1\<rparr>) NegInf
                (fst (create_interval (SliceSampling_init (point_mass c) x0 w) (rng (Suc k))))
                (snd (create_interval (SliceSampling_init (point_mass c) x0 w) (rng (Suc k))))
              = Some ((SliceSampling_init (point_mass c) x0 w)\<lparr>ss_samples := 1, ss_evals := 3\<rparr>,
                      fst (create_interval (SliceSampling_init (point_mass c) x0 w) (rng (Suc k))),
                      snd (create_interval (SliceSampling_init (point_mass c) x0 w) (rng (Suc k))))
            \<and> (\<forall>y. fst (create_interval (SliceSampling_init (point_mass c) x0 w) (rng (Suc k))) \<le> y
                     \<and> y \<le> snd (create_interval (SliceSampling_init (point_mass c) x0 w) (rng (Suc k)))
                   \<longrightarrow> \<not> NegInf < point_mass c y)
            \<and> SliceSampling_sample logval_log logval_exp (SliceSampling_init (point_mass c) x0 w) rng k
                = None)"
proof (intro conjI allI impI)
  let ?s = "SliceSampling_init (point_mass c) x0 w"
  let ?xl = "fst (create_interval ?s (rng (Suc k)))"
  let ?xr = "snd (create_interval ?s (rng (Suc k)))"
  show "logval_log (uniform 0 (logval_exp (point_mass c x0)) (rng k)) = NegInf"
    using assms(3) by (simp add: point_mass_def logval_exp_def logval_log_def uniform_def)
  {
    fix out
    assume "SliceSampling_sample logval_log logval_exp ?s rng k = Some out"
    from point_mass_returns_only_c[OF this assms(3)]
    show "out_log_u out = NegInf" "out_value out = c" .
  }
  assume far: "c < x0 - 2 * w \<or> x0 + 2 * w < c"
  have r: "0 \<le> rng (Suc k)" "rng (Suc k) \<le> 1" using assms(2) by simp_all
  have "0 \<le> rng (Suc k) * w" "rng (Suc k) * w \<le> w" "0 \<le> (1 - rng (Suc k)) * w"
    "(1 - rng (Suc k)) * w \<le> w"
    using r assms(1) by (auto intro!: mult_left_le_one_le mult_nonneg_nonneg)
  then have b: "x0 - w \<le> ?xl" "?xl \<le> x0" "x0 \<le> ?xr" "?xr \<le> x0 + w"
    by (simp_all add: create_interval_def SliceSampling_init_def)
  have out_of_reach: "\<forall>y. x0 - w \<le> y \<and> y \<le> x0 + w \<longrightarrow> point_mass c y = NegInf"
    using far assms(1) by (auto simp: point_mass_def)
  then have "point_mass c ?xl = NegInf" "point_mass c ?xr = NegInf"
    using b assms(1) by simp_all
  then have "\<not> NegInf < ss_log_p (?s\<lparr>ss_samples := 1, ss_evals := 1\<rparr>) ?xl"
    "\<not> NegInf < ss_log_p (?s\<lparr>ss_samples := 1, ss_evals := 1\<rparr>) ?xr"
    by (simp_all add: SliceSampling_init_def)
  from step_out_stays[OF this]
  show "step_out (?s\<lparr>ss_samples := 1, ss_evals := 1\<rparr>) NegInf ?xl ?xr
      = Some (?s\<lparr>ss_samples := 1, ss_evals := 3\<rparr>, ?xl, ?xr)"
    by (simp add: SliceSampling_init_def)
  show "\<not> NegInf < point_mass c y" if "?xl \<le> y \<and> y \<le> ?xr" for y
    using out_of_reach that b by simp
  from zero_density_never_returns[OF assms(1,2) out_of_reach]
  show "SliceSampling_sample logval_log logval_exp ?s rng k = None" .
qed

theorem degenerate_target_never_returns_witness:
  "(0::real) \<le> 3 / 2 \<and> (\<forall>i. 0 \<le> quarters i \<and> quarters i \<le> 1) \<and> (- 3 :: real) \<noteq> 2
   \<and> (- 3 :: real) + 2 * (3 / 2) < 2
   \<and> logval_log (uniform 0 (logval_exp (point_mass 2 (- 3))) (quarters 0)) = NegInf
   \<and> step_out ((SliceSampling_init (point_mass 2) (- 3) (3 / 2))\<lparr>ss_samples := 1, ss_evals := 1\<rparr>)
        NegInf (- 27 / 8) (- 15 / 8)
       = Some ((SliceSampling_init (point_mass 2) (- 3) (3 / 2))\<lparr>ss_samples := 1, ss_evals := 3\<rparr>,
               - 27 / 8, - 15 / 8)
   \<and> SliceSampling_sample logval_log logval_exp (SliceSampling_init (point_mass 2) (- 3) (3 / 2))
        quarters 0 = None"
  using degenerate_target_never_returns[of "3 / 2" quarters "- 3" 2 0]
  by (simp add: quarters_def create_interval_def SliceSampling_init_def)

theorem degenerate_target_loops_forever:
  "SliceSampling_sample logval_log logval_exp (SliceSampling_init (point_mass 5) 0 1) halves 0 = None"
proof -
  have "\<forall>y. (0::real) - 1 \<le> y \<and> y \<le> 0 + 1 \<longrightarrow> point_mass 5 y = NegInf"
    by (auto simp: point_mass_def)
  moreover have "\<forall>i. 0 \<le> halves i \<and> halves i \<le> 1" by (simp add: halves_def)
  ultimately show ?thesis by (intro zero_density_never_returns) simp_all
qed

section \<open>SliceSampling: progress of the loops\<close>

















section \<open>GibbsSampling: the sweep\<close>

text \<open>The loop writes to the list at \<open>x\<close> and to no other, whether it returns or raises.\<close>

lemma GibbsSampling_loop_frame:
  "case GibbsSampling_loop ts js x h g of
     Inl (e, h', g') \<Rightarrow> length h' = length h \<and> (\<forall>b. b \<noteq> x \<longrightarrow> h' ! b = h ! b)
   | Inr (h', g') \<Rightarrow> length h' = length h \<and> (\<forall>b. b \<noteq> x \<longrightarrow> h' ! b = h ! b)"
proof (induction js arbitrary: h g)
  case Nil
  show ?case by simp
next
  case (Cons i js)
  obtain v g1 where t: "(ts ! i) (h ! x) g = (v, g1)" by (cases "(ts ! i) (h ! x) g")
  show ?case
  proof (cases "i < length (h ! x)")
    case False
    with t show ?thesis by simp
  next
    case True
    let ?h1 = "h[x := (h ! x)[i := v]]"
    from Cons.IH[of ?h1 g1] True t show ?thesis
      by (auto split: sum.splits)
  qed
qed

text \<open>
  The loop from index \<open>i\<close> to \<open>K\<close>, when the list has an entry for each index: it returns; the
  entries outside \<open>i..<K\<close> are untouched; and the entry at \<open>j\<close> is what transition \<open>j\<close> returns
  on the list with the new entries below \<open>j\<close> and the old ones from \<open>j\<close> on.
\<close>

lemma GibbsSampling_loop_sweep:
  assumes "x < length h" and "i \<le> K" and "K \<le> length (h ! x)"
  shows "\<exists>h' g' G. GibbsSampling_loop ts [i..<K] x h g = Inr (h', g')
           \<and> length (h' ! x) = length (h ! x)
           \<and> (\<forall>j. j < i \<or> K \<le> j \<longrightarrow> h' ! x ! j = h ! x ! j)
           \<and> G i = g \<and> G K = g'
           \<and> (\<forall>j. i \<le> j \<and> j < K \<longrightarrow>
                 (ts ! j) (take j (h' ! x) @ drop j (h ! x)) (G j) = (h' ! x ! j, G (Suc j)))"
  using assms
proof (induction "K - i" arbitrary: i h g)
  case 0
  then have "[i..<K] = []" by simp
  then show ?case by (intro exI[of _ h] exI[of _ g] exI[of _ "\<lambda>_. g"]) (use 0 in auto)
next
  case (Suc n)
  then have iK: "i < K" by simp
  then have upt: "[i..<K] = i # [Suc i..<K]" by (simp add: upt_conv_Cons)
  let ?cur = "h ! x"
  obtain v g1 where t: "(ts ! i) ?cur g = (v, g1)" by (cases "(ts ! i) ?cur g")
  let ?h1 = "h[x := ?cur[i := v]]"
  have cur1: "?h1 ! x = ?cur[i := v]" using Suc.prems(1) by simp
  have "n = K - Suc i" using Suc.hyps(2) by simp
  from Suc.hyps(1)[OF this, of ?h1 g1] Suc.prems iK cur1
  obtain h' g' G where
    run: "GibbsSampling_loop ts [Suc i..<K] x ?h1 g1 = Inr (h', g')"
    and len: "length (h' ! x) = length ?cur"
    and out: "\<forall>j. j < Suc i \<or> K \<le> j \<longrightarrow> h' ! x ! j = ?cur[i := v] ! j"
    and G: "G (Suc i) = g1" "G K = g'"
    and tr: "\<forall>j. Suc i \<le> j \<and> j < K \<longrightarrow>
               (ts ! j) (take j (h' ! x) @ drop j (?cur[i := v])) (G j) = (h' ! x ! j, G (Suc j))"
    by auto
  let ?G = "G(i := g)"
  have i_len: "i < length ?cur" using iK Suc.prems(3) by simp
  have loop: "GibbsSampling_loop ts [i..<K] x h g = Inr (h', g')"
    using run t i_len by (simp add: upt)
  have at_i: "h' ! x ! i = v" using out i_len by simp
  have below: "\<forall>j<i. h' ! x ! j = ?cur ! j" using out by simp
  have "take i (h' ! x) = take i ?cur"
    using below len i_len by (intro nth_equalityI) simp_all
  then have arg_i: "take i (h' ! x) @ drop i ?cur = ?cur" by simp
  have untouched: "\<forall>j. j < i \<or> K \<le> j \<longrightarrow> h' ! x ! j = ?cur ! j"
    using out iK by auto
  have steps: "\<forall>j. i \<le> j \<and> j < K \<longrightarrow>
                 (ts ! j) (take j (h' ! x) @ drop j ?cur) (?G j) = (h' ! x ! j, ?G (Suc j))"
  proof (intro allI impI)
    fix j assume j: "i \<le> j \<and> j < K"
    show "(ts ! j) (take j (h' ! x) @ drop j ?cur) (?G j) = (h' ! x ! j, ?G (Suc j))"
    proof (cases "j = i")
      case True
      with t arg_i at_i G(1) show ?thesis by simp
    next
      case False
      with j have ij: "Suc i \<le> j" "j < K" by simp_all
      then have "drop j (?cur[i := v]) = drop j ?cur" by simp
      with tr ij show ?thesis by auto
    qed
  qed
  have "?G i = g" "?G K = g'" using G(2) iK by simp_all
  with loop len untouched steps show ?case by blast
qed

lemma GibbsSampling_sample_frame:
  assumes "gs_x s < length h"
  shows "case GibbsSampling_sample s h g of
     Inl (e, h', g') \<Rightarrow> length h \<le> length h' \<and> (\<forall>b<length h. h' ! b = h ! b)
   | Inr (s', a, h', g') \<Rightarrow>
       a = length h \<and> length h' = Suc (length h) \<and> gs_x s' = a
       \<and> gs_transitions s' = gs_transitions s \<and> (\<forall>b<length h. h' ! b = h ! b)"
proof -
  let ?h0 = "h @ [h ! gs_x s]"
  let ?K = "length (gs_transitions s)"
  have "(?h0 ! b = h ! b)" if "b < length h" for b using that by (simp add: nth_append)
  with GibbsSampling_loop_frame[where ts = "gs_transitions s" and js = "[0..<?K]"
      and x = "length h" and h = ?h0 and g = g]
  show ?thesis
    by (auto simp: GibbsSampling_sample_def Let_def split: sum.splits)
qed

text \<open>
  Claim C4. With an entry in the state list for each of the \<open>K\<close> transitions, \<open>sample\<close> returns
  after one sweep in index order: entry \<open>i\<close> of the returned list is what transition \<open>i\<close>
  returns on the list whose entries below \<open>i\<close> are the new ones and whose entries from \<open>i\<close> on
  are those of the state before the call (\<open>G i\<close> is the random source as transition \<open>i\<close> finds
  it); entries from \<open>K\<close> on are kept. The returned list is the new state of the sampler.
\<close>

theorem gibbs_systematic_sweep:
  assumes "gs_x s < length h" and "length (gs_transitions s) \<le> length (h ! gs_x s)"
  shows "\<exists>s' a h' g' G. GibbsSampling_sample s h g = Inr (s', a, h', g')
      \<and> gs_x s' = a \<and> gs_transitions s' = gs_transitions s
      \<and> length (h' ! a) = length (h ! gs_x s)
      \<and> G 0 = g \<and> G (length (gs_transitions s)) = g'
      \<and> (\<forall>i<length (gs_transitions s).
            (gs_transitions s ! i) (take i (h' ! a) @ drop i (h ! gs_x s)) (G i)
              = (h' ! a ! i, G (Suc i)))
      \<and> (\<forall>i. length (gs_transitions s) \<le> i \<longrightarrow> h' ! a ! i = h ! gs_x s ! i)"
proof -
  let ?h0 = "h @ [h ! gs_x s]"
  let ?K = "length (gs_transitions s)"
  let ?x = "length h"
  have x: "?x < length ?h0" and cur: "?h0 ! ?x = h ! gs_x s" by simp_all
  from GibbsSampling_loop_sweep[OF x, of 0 ?K "gs_transitions s" g] assms(2) cur
  obtain h' g' G where
    run: "GibbsSampling_loop (gs_transitions s) [0..<?K] ?x ?h0 g = Inr (h', g')"
    and len: "length (h' ! ?x) = length (h ! gs_x s)"
    and out: "\<forall>j. ?K \<le> j \<longrightarrow> h' ! ?x ! j = h ! gs_x s ! j"
    and G: "G 0 = g" "G ?K = g'"
    and tr: "\<forall>j<?K. (gs_transitions s ! j) (take j (h' ! ?x) @ drop j (h ! gs_x s)) (G j)
                = (h' ! ?x ! j, G (Suc j))"
    by auto
  have "GibbsSampling_sample s h g = Inr (s\<lparr>gs_x := ?x\<rparr>, ?x, h', g')"
    using run by (simp add: GibbsSampling_sample_def Let_def)
  with len out G tr show ?thesis by (intro exI[of _ "s\<lparr>gs_x := ?x\<rparr>"] exI[of _ ?x] exI[of _ h'] exI[of _ g'] exI[of _ G]) simp
qed

lemma sample_gibbs_gauss:
  "GibbsSampling_sample gibbs_gauss [[3 / 2, 2]] 0 =
     Inr (gibbs_gauss\<lparr>gs_x := 1\<rparr>, 1, [[3 / 2, 2], [99 / 50, 9801 / 5000]], 2)"
  by (simp add: GibbsSampling_sample_def gibbs_gauss_def cond_prob_def zeros_def Let_def
      upt_conv_Cons)

theorem gibbs_systematic_sweep_witness:
  "gs_x gibbs_gauss < length [[3 / 2, 2 :: real]]
   \<and> length (gs_transitions gibbs_gauss) \<le> length ([[3 / 2, 2 :: real]] ! gs_x gibbs_gauss)
   \<and> GibbsSampling_sample gibbs_gauss [[3 / 2, 2]] 0 =
        Inr (gibbs_gauss\<lparr>gs_x := 1\<rparr>, 1, [[3 / 2, 2], [99 / 50, 9801 / 5000]], 2)
   \<and> (gs_transitions gibbs_gauss ! 1) (take 1 [99 / 50, 9801 / 5000] @ drop 1 [3 / 2, 2]) 1
        = ([99 / 50, 9801 / 5000] ! 1, 2)"
  using gibbs_systematic_sweep[of gibbs_gauss "[[3 / 2, 2]]" 0] sample_gibbs_gauss
  by (simp add: gibbs_gauss_def cond_prob_def zeros_def)

section \<open>GibbsSampling: lists handed out earlier\<close>

lemma GibbsSampling_run_frame:
  assumes "gs_x s < length h"
  shows "case GibbsSampling_run n s h g of
     Inl (e, h', g') \<Rightarrow> length h \<le> length h' \<and> (\<forall>b<length h. h' ! b = h ! b)
   | Inr (as, s', h', g') \<Rightarrow>
       as = [length h..<length h + n] \<and> length h' = length h + n \<and> gs_x s' < length h'
       \<and> gs_transitions s' = gs_transitions s \<and> (\<forall>b<length h. h' ! b = h ! b)"
  using assms
proof (induction n arbitrary: s h g)
  case 0
  then show ?case by simp
next
  case (Suc n)
  show ?case
  proof (cases "GibbsSampling_sample s h g")
    case (Inl e)
    with GibbsSampling_sample_frame[OF Suc.prems, where g = g] show ?thesis
      by (auto split: prod.splits)
  next
    case (Inr r)
    then obtain s1 a h1 g1 where c: "GibbsSampling_sample s h g = Inr (s1, a, h1, g1)"
      by (cases r) auto
    with GibbsSampling_sample_frame[OF Suc.prems, where g = g]
    have f: "a = length h" "length h1 = Suc (length h)" "gs_x s1 = a"
      "gs_transitions s1 = gs_transitions s" "\<forall>b<length h. h1 ! b = h ! b"
      by auto
    then have "gs_x s1 < length h1" by simp
    from Suc.IH[OF this, where g = g1] show ?thesis
      using c f by (auto simp: upt_conv_Cons split: sum.splits)
  qed
qed

text \<open>
  Claim C10. After any number of calls, take the heap as it is: the lists returned so far
  are among its objects. Whatever further calls do, return or raise, every object of that
  heap has the contents it had; each further call that returns hands out a new object, so
  one that is neither the list \<open>self.x\<close> referred to before the call nor any list returned
  before, and makes it the state.
\<close>

theorem gibbs_earlier_lists_never_mutated:
  assumes "gs_x s < length h" and "GibbsSampling_run m s h g = Inr (asm, sm, hm, gm)"
  shows "(\<forall>a\<in>set asm. a < length hm) \<and> gs_x sm < length hm
       \<and> (case GibbsSampling_run k sm hm gm of
             Inl (e, h', g') \<Rightarrow> (\<forall>b<length hm. h' ! b = hm ! b)
           | Inr (as', s', h', g') \<Rightarrow>
               (\<forall>b<length hm. h' ! b = hm ! b)
               \<and> as' = [length hm..<length hm + k]
               \<and> (0 < k \<longrightarrow> gs_x s' = last as'))"
proof -
  from GibbsSampling_run_frame[OF assms(1), where n = m and g = g] assms(2)
  have m: "asm = [length h..<length h + m]" "length hm = length h + m" "gs_x sm < length hm"
    by simp_all
  have last: "0 < k \<longrightarrow> gs_x s' = last as'"
    if "GibbsSampling_run k sm hm gm = Inr (as', s', h', g')" for as' s' h' g'
    using that
  proof (induction k arbitrary: sm hm gm as')
    case 0
    then show ?case by simp
  next
    case (Suc k)
    from Suc.prems obtain s1 a h1 g1 bs where
      c: "GibbsSampling_sample sm hm gm = Inr (s1, a, h1, g1)"
      and r: "GibbsSampling_run k s1 h1 g1 = Inr (bs, s', h', g')"
      and as': "as' = a # bs"
      by (auto split: sum.splits)
    have a: "gs_x s1 = a" using c
      by (auto simp: GibbsSampling_sample_def Let_def split: sum.splits)
    show ?case
    proof (cases k)
      case 0
      with r a as' show ?thesis by simp
    next
      case (Suc k')
      with r have "bs \<noteq> []" by (auto split: sum.splits)
      with Suc.IH[OF r] Suc as' show ?thesis by simp
    qed
  qed
  from GibbsSampling_run_frame[OF m(3), where n = k and g = gm] last m(1,2,3)
  show ?thesis by (auto split: sum.splits)
qed

lemma run_gibbs_gauss:
  "GibbsSampling_run 1 gibbs_gauss [[3 / 2, 2]] 0 =
     Inr ([1], gibbs_gauss\<lparr>gs_x := 1\<rparr>, [[3 / 2, 2], [99 / 50, 9801 / 5000]], 2)"
  by (simp add: sample_gibbs_gauss)

theorem gibbs_earlier_lists_never_mutated_witness:
  "gs_x gibbs_gauss < length [[3 / 2, 2 :: real]]
   \<and> GibbsSampling_run 1 gibbs_gauss [[3 / 2, 2]] 0 =
       Inr ([1], gibbs_gauss\<lparr>gs_x := 1\<rparr>, [[3 / 2, 2], [99 / 50, 9801 / 5000]], 2)
   \<and> GibbsSampling_run 1 (gibbs_gauss\<lparr>gs_x := 1\<rparr>) [[3 / 2, 2], [99 / 50, 9801 / 5000]] 2 =
       Inr ([2], gibbs_gauss\<lparr>gs_x := 2\<rparr>,
            [[3 / 2, 2], [99 / 50, 9801 / 5000], [970299 / 500000, 96059601 / 50000000]], 4)"
  using gibbs_earlier_lists_never_mutated[OF _ run_gibbs_gauss, of 1] run_gibbs_gauss
  by (simp add: GibbsSampling_sample_def gibbs_gauss_def cond_prob_def zeros_def Let_def
      upt_conv_Cons)

section \<open>MultiSampling: the sweep over the directions\<close>

lemma np_add_same_length:
  assumes "length a = length b"
  shows "np_add a b = Inr (map (\<lambda>(e, f). e + f) (zip a b))"
  using assms by (simp add: np_add_def)

lemma np_add_same_length_nth:
  assumes "length a = length b" "np_add a b = Inr c"
  shows "length c = length a" "\<forall>j<length a. c ! j = a ! j + b ! j"
  using assms by (auto simp: np_add_def)

text \<open>
  A returning loop, step by step: \<open>us\<close> are the samples drawn, \<open>gs\<close> the random source
  before each direction and after the last, \<open>xs\<close> the states likewise.
\<close>

lemma MultiSampling_loop_trace:
  assumes "MultiSampling_loop s ds g = Some (Inr (s', g'))"
  shows "\<exists>us gs xs. length us = length ds \<and> length gs = Suc (length ds)
           \<and> length xs = Suc (length ds)
           \<and> gs ! 0 = g \<and> xs ! 0 = ms_x s
           \<and> gs ! length ds = g' \<and> s' = s\<lparr>ms_x := xs ! length ds\<rparr>
           \<and> (\<forall>k<length ds.
                 ms_uni_sampler s (uni_log_p (ms_log_p s) (xs ! k) (ds ! k)) 0 (gs ! k)
                   = Some (Inr (us ! k, gs ! Suc k))
                 \<and> np_add (xs ! k) (np_scale (us ! k) (ds ! k)) = Inr (xs ! Suc k))"
  using assms
proof (induction ds arbitrary: s g)
  case Nil
  then have "s' = s" "g' = g" by simp_all
  then show ?case
    by (intro exI[of _ "[]"] exI[of _ "[g]"] exI[of _ "[ms_x s]"]) simp
next
  case (Cons d ds)
  from Cons.prems obtain u g1 x1 where
    call: "ms_uni_sampler s (uni_log_p (ms_log_p s) (ms_x s) d) 0 g = Some (Inr (u, g1))"
    and add: "np_add (ms_x s) (np_scale u d) = Inr x1"
    and rest: "MultiSampling_loop (s\<lparr>ms_x := x1\<rparr>) ds g1 = Some (Inr (s', g'))"
    by (auto split: option.splits sum.splits)
  from Cons.IH[OF rest] obtain us gs xs where
    len: "length us = length ds" "length gs = Suc (length ds)" "length xs = Suc (length ds)"
    and hd: "gs ! 0 = g1" "xs ! 0 = x1"
    and fin: "gs ! length ds = g'" "s' = s\<lparr>ms_x := xs ! length ds\<rparr>"
    and tr: "\<forall>k<length ds.
               ms_uni_sampler s (uni_log_p (ms_log_p s) (xs ! k) (ds ! k)) 0 (gs ! k)
                 = Some (Inr (us ! k, gs ! Suc k))
               \<and> np_add (xs ! k) (np_scale (us ! k) (ds ! k)) = Inr (xs ! Suc k)"
    by auto
  let ?us = "u # us" and ?gs = "g # gs" and ?xs = "ms_x s # xs"
  have steps: "\<forall>k<length (d # ds).
        ms_uni_sampler s (uni_log_p (ms_log_p s) (?xs ! k) ((d # ds) ! k)) 0 (?gs ! k)
          = Some (Inr (?us ! k, ?gs ! Suc k))
        \<and> np_add (?xs ! k) (np_scale (?us ! k) ((d # ds) ! k)) = Inr (?xs ! Suc k)"
  proof (intro allI impI)
    fix k assume k: "k < length (d # ds)"
    show "ms_uni_sampler s (uni_log_p (ms_log_p s) (?xs ! k) ((d # ds) ! k)) 0 (?gs ! k)
          = Some (Inr (?us ! k, ?gs ! Suc k))
        \<and> np_add (?xs ! k) (np_scale (?us ! k) ((d # ds) ! k)) = Inr (?xs ! Suc k)"
    proof (cases k)
      case 0
      with call add hd show ?thesis by simp
    next
      case (Suc k')
      with k have "k' < length ds" by simp
      with tr Suc show ?thesis by simp
    qed
  qed
  have "length ?us = length (d # ds)" "length ?gs = Suc (length (d # ds))"
    "length ?xs = Suc (length (d # ds))" "?gs ! 0 = g" "?xs ! 0 = ms_x s"
    "?gs ! length (d # ds) = g'" "s' = s\<lparr>ms_x := ?xs ! length (d # ds)\<rparr>"
    using len fin by simp_all
  with steps show ?case by blast
qed

text \<open>With all arrays of one length, the states of a trace are partial sums.\<close>

lemma trace_partial_sums:
  assumes "\<forall>k<K. np_add (xs ! k) (np_scale (us ! k) (ds ! k)) = Inr (xs ! Suc k)"
    and "\<forall>k<K. length (ds ! k) = length (xs ! 0)"
    and "m \<le> K"
  shows "length (xs ! m) = length (xs ! 0)
       \<and> (\<forall>j<length (xs ! 0). xs ! m ! j = xs ! 0 ! j + (\<Sum>k<m. us ! k * ds ! k ! j))"
  using assms(3)
proof (induction m)
  case 0
  show ?case by simp
next
  case (Suc m)
  then have m: "m < K" and IH: "length (xs ! m) = length (xs ! 0)"
    "\<forall>j<length (xs ! 0). xs ! m ! j = xs ! 0 ! j + (\<Sum>k<m. us ! k * ds ! k ! j)"
    by simp_all
  from assms(1) m have add: "np_add (xs ! m) (np_scale (us ! m) (ds ! m)) = Inr (xs ! Suc m)"
    by simp
  have len: "length (xs ! m) = length (np_scale (us ! m) (ds ! m))"
    using IH(1) assms(2) m by (simp add: np_scale_def)
  from np_add_same_length_nth[OF len add]
  have l: "length (xs ! Suc m) = length (xs ! m)"
    and n: "\<forall>j<length (xs ! m). xs ! Suc m ! j = xs ! m ! j + np_scale (us ! m) (ds ! m) ! j"
    by simp_all
  have "xs ! Suc m ! j = xs ! 0 ! j + (\<Sum>k<Suc m. us ! k * ds ! k ! j)"
    if j: "j < length (xs ! 0)" for j
  proof -
    have "j < length (ds ! m)" using j assms(2) m by simp
    then have "np_scale (us ! m) (ds ! m) ! j = us ! m * ds ! m ! j"
      by (simp add: np_scale_def)
    with n IH j show ?thesis by simp
  qed
  with l IH(1) show ?case by simp
qed

text \<open>The density handed to the sampler, entry by entry, when the lengths agree.\<close>

lemma uni_log_p_entries:
  assumes "length d = length x"
  shows "uni_log_p log_p x d u = Inr (log_p (map (\<lambda>j. x ! j + u * d ! j) [0..<length x]))"
proof -
  have "map (\<lambda>(e, f). e + f) (zip x (np_scale u d)) = map (\<lambda>j. x ! j + u * d ! j) [0..<length x]"
    using assms by (intro nth_equalityI) (simp_all add: np_scale_def)
  with assms show ?thesis by (simp add: uni_log_p_def np_add_def np_scale_def)
qed

text \<open>
  Claim C5. A returning call of \<open>MultiSampling.sample\<close> takes the directions in their order;
  for direction \<open>k\<close> it calls the one-dimensional sampler once, at offset 0, with the density
  \<open>u \<mapsto> log_p(x + u*d\<^sub>k)\<close> over the state \<open>x = xs ! k\<close> reached so far, obtains \<open>us ! k\<close>, and
  replaces the state by \<open>x + us ! k * d\<^sub>k\<close>. It returns the last state, which is also the new
  \<open>self.x\<close>. When the directions have the length of the state, sum and product are entry
  by entry, and the state returned is the state before the call plus the sum of the
  \<open>us ! k\<close> times the directions.
\<close>

theorem multi_sampling_sweep:
  assumes "MultiSampling_sample s g = Some (Inr (s', v, g'))"
  shows "\<exists>us gs xs. length us = length (ms_directions s)
       \<and> gs ! 0 = g \<and> xs ! 0 = ms_x s
       \<and> (\<forall>k<length (ms_directions s).
             ms_uni_sampler s
                 (\<lambda>u. case np_add (xs ! k) (np_scale u (ms_directions s ! k)) of
                        Inl e \<Rightarrow> Inl e | Inr y \<Rightarrow> Inr (ms_log_p s y))
                 0 (gs ! k)
               = Some (Inr (us ! k, gs ! Suc k))
             \<and> np_add (xs ! k) (np_scale (us ! k) (ms_directions s ! k)) = Inr (xs ! Suc k))
       \<and> v = xs ! length (ms_directions s) \<and> g' = gs ! length (ms_directions s)
       \<and> s' = s\<lparr>ms_x := v\<rparr>
       \<and> ((\<forall>d\<in>set (ms_directions s). length d = length (ms_x s)) \<longrightarrow>
            length v = length (ms_x s)
            \<and> (\<forall>k<length (ms_directions s).
                  ms_uni_sampler s
                      (\<lambda>u. Inr (ms_log_p s
                         (map (\<lambda>j. xs ! k ! j + u * ms_directions s ! k ! j) [0..<length (ms_x s)])))
                      0 (gs ! k)
                    = Some (Inr (us ! k, gs ! Suc k))
                  \<and> xs ! Suc k = map (\<lambda>j. xs ! k ! j + us ! k * ms_directions s ! k ! j)
                                    [0..<length (ms_x s)])
            \<and> (\<forall>j<length (ms_x s).
                  v ! j = ms_x s ! j + (\<Sum>k<length (ms_directions s). us ! k * ms_directions s ! k ! j)))"
proof -
  let ?ds = "ms_directions s"
  from assms have loop: "MultiSampling_loop s ?ds g = Some (Inr (s', g'))" and v: "v = ms_x s'"
    by (auto simp: MultiSampling_sample_def split: option.splits sum.splits)
  from MultiSampling_loop_trace[OF loop] obtain us gs xs where
    len: "length us = length ?ds"
    and hd: "gs ! 0 = g" "xs ! 0 = ms_x s"
    and fin: "gs ! length ?ds = g'" "s' = s\<lparr>ms_x := xs ! length ?ds\<rparr>"
    and tr: "\<forall>k<length ?ds.
               ms_uni_sampler s (uni_log_p (ms_log_p s) (xs ! k) (?ds ! k)) 0 (gs ! k)
                 = Some (Inr (us ! k, gs ! Suc k))
               \<and> np_add (xs ! k) (np_scale (us ! k) (?ds ! k)) = Inr (xs ! Suc k)"
    by blast
  have dens: "uni_log_p lp x d = (\<lambda>u. case np_add x (np_scale u d) of
                 Inl e \<Rightarrow> Inl e | Inr y \<Rightarrow> Inr (lp y))" for lp :: "real list \<Rightarrow> 'a" and x d
    by (rule ext) (simp add: uni_log_p_def)
  have tr': "\<forall>k<length ?ds.
               ms_uni_sampler s
                 (\<lambda>u. case np_add (xs ! k) (np_scale u (?ds ! k)) of
                        Inl e \<Rightarrow> Inl e | Inr y \<Rightarrow> Inr (ms_log_p s y))
                 0 (gs ! k)
                 = Some (Inr (us ! k, gs ! Suc k))
               \<and> np_add (xs ! k) (np_scale (us ! k) (?ds ! k)) = Inr (xs ! Suc k)"
    using tr unfolding dens .
  have vx: "v = xs ! length ?ds" using v fin(2) by simp
  have sums: "length v = length (ms_x s)
      \<and> (\<forall>k<length ?ds.
            ms_uni_sampler s
                (\<lambda>u. Inr (ms_log_p s (map (\<lambda>j. xs ! k ! j + u * ?ds ! k ! j) [0..<length (ms_x s)])))
                0 (gs ! k)
              = Some (Inr (us ! k, gs ! Suc k))
            \<and> xs ! Suc k = map (\<lambda>j. xs ! k ! j + us ! k * ?ds ! k ! j) [0..<length (ms_x s)])
      \<and> (\<forall>j<length (ms_x s). v ! j = ms_x s ! j + (\<Sum>k<length ?ds. us ! k * ?ds ! k ! j))"
    if eq: "\<forall>d\<in>set ?ds. length d = length (ms_x s)"
  proof -
    have a: "\<forall>k<length ?ds. np_add (xs ! k) (np_scale (us ! k) (?ds ! k)) = Inr (xs ! Suc k)"
      using tr by simp
    have b: "\<forall>k<length ?ds. length (?ds ! k) = length (xs ! 0)"
      using eq hd(2) by simp
    have ps: "length (xs ! m) = length (ms_x s)
        \<and> (\<forall>j<length (ms_x s). xs ! m ! j = ms_x s ! j + (\<Sum>k<m. us ! k * ?ds ! k ! j))"
      if "m \<le> length ?ds" for m
      using trace_partial_sums[OF a b that] hd(2) by simp
    have steps: "ms_uni_sampler s
                (\<lambda>u. Inr (ms_log_p s (map (\<lambda>j. xs ! k ! j + u * ?ds ! k ! j) [0..<length (ms_x s)])))
                0 (gs ! k)
              = Some (Inr (us ! k, gs ! Suc k))
            \<and> xs ! Suc k = map (\<lambda>j. xs ! k ! j + us ! k * ?ds ! k ! j) [0..<length (ms_x s)]"
      if k: "k < length ?ds" for k
    proof -
      have lk: "length (?ds ! k) = length (xs ! k)" "length (xs ! k) = length (ms_x s)"
        using ps[of k] b k hd(2) by simp_all
      have e: "uni_log_p (ms_log_p s) (xs ! k) (?ds ! k)
          = (\<lambda>u. Inr (ms_log_p s (map (\<lambda>j. xs ! k ! j + u * ?ds ! k ! j) [0..<length (ms_x s)])))"
        using uni_log_p_entries[OF lk(1), of "ms_log_p s"] lk(2) by (intro ext) simp
      from tr k have "ms_uni_sampler s (uni_log_p (ms_log_p s) (xs ! k) (?ds ! k)) 0 (gs ! k)
          = Some (Inr (us ! k, gs ! Suc k))" by simp
      then have "ms_uni_sampler s
          (\<lambda>u. Inr (ms_log_p s (map (\<lambda>j. xs ! k ! j + u * ?ds ! k ! j) [0..<length (ms_x s)])))
          0 (gs ! k) = Some (Inr (us ! k, gs ! Suc k))"
        unfolding e .
      moreover have "xs ! Suc k = map (\<lambda>j. xs ! k ! j + us ! k * ?ds ! k ! j) [0..<length (ms_x s)]"
      proof -
        have "length (xs ! k) = length (np_scale (us ! k) (?ds ! k))"
          using lk by (simp add: np_scale_def)
        from np_add_same_length[OF this] a k
        have "xs ! Suc k = map (\<lambda>(e, f). e + f) (zip (xs ! k) (np_scale (us ! k) (?ds ! k)))"
          by simp
        also have "\<dots> = map (\<lambda>j. xs ! k ! j + us ! k * ?ds ! k ! j) [0..<length (ms_x s)]"
          using lk by (intro nth_equalityI) (simp_all add: np_scale_def)
        finally show ?thesis .
      qed
      ultimately show ?thesis by simp
    qed
    from ps[of "length ?ds"] steps show ?thesis
      using vx by simp
  qed
  have "s' = s\<lparr>ms_x := v\<rparr>" using fin(2) vx by simp
  with len hd tr' vx fin(1) sums show ?thesis
    by (intro exI[of _ us] exI[of _ gs] exI[of _ xs]) simp
qed

lemma uni_log_p_first: "uni_log_p laplace2 [0, 0] [1, 0] = (\<lambda>u. Inr (Fin (- \<bar>u\<bar>)))"
  by (rule ext) (simp add: uni_log_p_def np_add_def np_scale_def laplace2_def)

lemma uni_log_p_second:
  "uni_log_p laplace2 [13 / 16, 0] [0, 1] = (\<lambda>u. Inr (Fin (- (13 / 16 + \<bar>u\<bar>))))"
  by (rule ext) (simp add: uni_log_p_def np_add_def np_scale_def laplace2_def)

lemma slice_first:
  "slice_uni_sampler 1 draws (uni_log_p laplace2 [0, 0] [1, 0]) 0 0 = Some (Inr (13 / 16, 4))"
  unfolding uni_log_p_first
  by (simp add: slice_uni_sampler_def
      SliceSampling_sample_def step_out_def step_out_left.simps step_out_right.simps
      shrink_loop.simps SliceSampling_init_def priv_log_p_def logval_log_def
      logval_exp_def draws_def uniform_def create_interval_def adjust_interval_def Let_def)

lemma slice_second:
  "slice_uni_sampler 1 draws (uni_log_p laplace2 [13 / 16, 0] [0, 1]) 0 4 = Some (Inr (3 / 4, 7))"
  unfolding uni_log_p_second
  by (simp add: slice_uni_sampler_def
      SliceSampling_sample_def step_out_def step_out_left.simps step_out_right.simps
      shrink_loop.simps SliceSampling_init_def priv_log_p_def logval_log_def
      logval_exp_def draws_def uniform_def create_interval_def adjust_interval_def Let_def
      mult_exp_exp)

lemma sample_multi_laplace:
  "MultiSampling_sample multi_laplace 0 =
     Some (Inr (multi_laplace\<lparr>ms_x := [13 / 16, 3 / 4]\<rparr>, [13 / 16, 3 / 4], 7))"
proof -
  have a1: "np_add [0, 0] (np_scale (13 / 16) [1, 0]) = Inr [13 / 16, 0]"
    and a2: "np_add [13 / 16, 0] (np_scale (3 / 4) [0, 1]) = Inr [13 / 16, 3 / 4]"
    by (simp_all add: np_add_def np_scale_def)
  show ?thesis
    by (simp add: MultiSampling_sample_def multi_laplace_def slice_first slice_second a1 a2)
qed

theorem multi_sampling_sweep_witness:
  "MultiSampling_sample multi_laplace 0 =
     Some (Inr (multi_laplace\<lparr>ms_x := [13 / 16, 3 / 4]\<rparr>, [13 / 16, 3 / 4], 7))
   \<and> (\<exists>us. length us = 2
         \<and> [13 / 16, 3 / 4] ! 0
             = ms_x multi_laplace ! 0 + (\<Sum>k<2. us ! k * ms_directions multi_laplace ! k ! 0)
         \<and> [13 / 16, 3 / 4] ! 1
             = ms_x multi_laplace ! 1 + (\<Sum>k<2. us ! k * ms_directions multi_laplace ! k ! 1))
   \<and> (case np_add [13 / 16, 0] (np_scale 2 [0, 1]) of
         Inl e \<Rightarrow> Inl e | Inr y \<Rightarrow> Inr (ms_log_p multi_laplace y)) = Inr (Fin (- 45 / 16))"
proof -
  have dens: "(case np_add [13 / 16, 0] (np_scale 2 [0, 1]) of
         Inl e \<Rightarrow> Inl e | Inr y \<Rightarrow> Inr (ms_log_p multi_laplace y)) = Inr (Fin (- 45 / 16))"
    by (simp add: np_add_def np_scale_def multi_laplace_def laplace2_def)
  have d: "\<forall>d\<in>set (ms_directions multi_laplace). length d = length (ms_x multi_laplace)"
    by (simp add: multi_laplace_def)
  have two: "length (ms_directions multi_laplace) = 2" "length (ms_x multi_laplace) = 2"
    by (simp_all add: multi_laplace_def)
  from multi_sampling_sweep[OF sample_multi_laplace] d obtain us where us:
    "length us = length (ms_directions multi_laplace)"
    "\<forall>j<length (ms_x multi_laplace). [13 / 16, 3 / 4] ! j =
        ms_x multi_laplace ! j
        + (\<Sum>k<length (ms_directions multi_laplace). us ! k * ms_directions multi_laplace ! k ! j)"
    by blast
  have "(0::nat) < 2" "(1::nat) < 2" by simp_all
  with us(2)[unfolded two] have
    "[13 / 16, 3 / 4] ! 0
       = ms_x multi_laplace ! 0 + (\<Sum>k<2. us ! k * ms_directions multi_laplace ! k ! 0)"
    "[13 / 16, 3 / 4] ! 1
       = ms_x multi_laplace ! 1 + (\<Sum>k<2. us ! k * ms_directions multi_laplace ! k ! 1)"
    by blast+
  with us(1)[unfolded two] sample_multi_laplace dens show ?thesis by blast
qed

section \<open>The three samplers: the value returned and the state\<close>

lemma SliceSampling_sample_self:
  assumes "SliceSampling_sample np_log np_exp s rng k = Some out"
  shows "ss_x (out_self out) = out_value out" "ss_samples (out_self out) = ss_samples s + 1"
    "ss_log_p (out_self out) = ss_log_p s" "ss_w (out_self out) = ss_w s"
proof -
  let ?s1 = "s\<lparr>ss_samples := ss_samples s + 1, ss_evals := ss_evals s + 1\<rparr>"
  from SliceSampling_sample_SomeD[OF assms] obtain s2 xl' xr' lu xl xr where
    so: "step_out ?s1 lu xl xr = Some (s2, xl', xr')" and
    sh: "shrink_loop s2 lu xl' xr' rng (Suc (Suc k)) = Some out"
    by blast
  from step_out_result[OF so] obtain nl nr :: nat where
    s2: "s2 = ?s1\<lparr>ss_evals := ss_evals ?s1 + (int nl + 1) + (int nr + 1)\<rparr>" by blast
  from shrink_loop_post[OF sh] have
    "out_self out = s2\<lparr>ss_x := out_value out,
        ss_evals := ss_evals s2 + int (out_cursor out - Suc (Suc k))\<rparr>"
    unfolding shrink_post_def by blast
  then show "ss_x (out_self out) = out_value out" "ss_samples (out_self out) = ss_samples s + 1"
    "ss_log_p (out_self out) = ss_log_p s" "ss_w (out_self out) = ss_w s"
    by (simp_all add: s2)
qed

lemma MultiSampling_sample_self:
  assumes "MultiSampling_sample m g = Some (Inr (m', v, g'))"
  shows "ms_x m' = v"
  using assms by (auto simp: MultiSampling_sample_def split: option.splits sum.splits)

lemma GibbsSampling_sample_self:
  assumes "GibbsSampling_sample b h r = Inr (b', a, h', r')"
  shows "gs_x b' = a" "a = length h" "gs_transitions b' = gs_transitions b"
  using assms by (auto simp: GibbsSampling_sample_def Let_def split: sum.splits)

text \<open>
  Claim C2. A returning call of each of the three \<open>sample\<close> methods returns one value, and
  that value is the state \<open>self.x\<close> the call leaves: the accepted point for \<open>SliceSampling\<close>
  (whose count of samples has grown by one), the updated array for \<open>MultiSampling\<close>, the
  new list object for \<open>GibbsSampling\<close>. The other fields are as before.
\<close>

theorem sample_returns_new_state:
  assumes "SliceSampling_sample np_log np_exp s rng k = Some out"
    and "MultiSampling_sample m g = Some (Inr (m', v, g'))"
    and "GibbsSampling_sample b h r = Inr (b', a, h', r')"
  shows "ss_x (out_self out) = out_value out \<and> ss_samples (out_self out) = ss_samples s + 1
       \<and> ss_log_p (out_self out) = ss_log_p s \<and> ss_w (out_self out) = ss_w s
       \<and> ms_x m' = v \<and> m' = m\<lparr>ms_x := v\<rparr>
       \<and> gs_x b' = a \<and> b' = b\<lparr>gs_x := a\<rparr>"
proof -
  from assms(2) obtain g1 where "MultiSampling_loop m (ms_directions m) g = Some (Inr (m', g1))"
    and v: "v = ms_x m'"
    by (auto simp: MultiSampling_sample_def split: option.splits sum.splits)
  from MultiSampling_loop_trace[OF this(1)] v have m': "m' = m\<lparr>ms_x := v\<rparr>" by auto
  have b': "b' = b\<lparr>gs_x := a\<rparr>"
    using assms(3) by (auto simp: GibbsSampling_sample_def Let_def split: sum.splits)
  from SliceSampling_sample_self[OF assms(1)] MultiSampling_sample_self[OF assms(2)]
    GibbsSampling_sample_self(1)[OF assms(3)] m' b'
  show ?thesis by simp
qed

theorem sample_returns_new_state_witness:
  "SliceSampling_sample logval_log logval_exp (SliceSampling_init laplace 0 1) draws 0 =
     Some \<lparr>out_self = \<lparr>ss_log_p = laplace, ss_x = 13 / 16, ss_w = 1, ss_samples = 1, ss_evals = 7\<rparr>,
           out_value = 13 / 16, out_log_u = Fin (- 1), out_xl = - 5 / 4, out_xr = 3 / 2,
           out_cursor = 4\<rparr>
   \<and> MultiSampling_sample multi_laplace 0 =
       Some (Inr (multi_laplace\<lparr>ms_x := [13 / 16, 3 / 4]\<rparr>, [13 / 16, 3 / 4], 7))
   \<and> GibbsSampling_sample gibbs_gauss [[3 / 2, 2]] 0 =
       Inr (gibbs_gauss\<lparr>gs_x := 1\<rparr>, 1, [[3 / 2, 2], [99 / 50, 9801 / 5000]], 2)
   \<and> ms_x (multi_laplace\<lparr>ms_x := [13 / 16, 3 / 4]\<rparr>) = [13 / 16, 3 / 4]
   \<and> gs_x (gibbs_gauss\<lparr>gs_x := 1\<rparr>) = 1"
  using sample_returns_new_state[OF sample_laplace sample_multi_laplace sample_gibbs_gauss]
    sample_laplace sample_multi_laplace sample_gibbs_gauss
  by simp

section \<open>Shapes that do not agree\<close>

text \<open>With more indices to go than the list has entries, the assignment raises.\<close>

lemma GibbsSampling_loop_IndexError:
  assumes "x < length h" and "i \<le> length (h ! x)" and "length (h ! x) < K"
  shows "\<exists>h' g'. GibbsSampling_loop ts [i..<K] x h g = Inl (IndexError, h', g')"
  using assms
proof (induction "length (h ! x) - i" arbitrary: i h g)
  case 0
  then have i: "\<not> i < length (h ! x)" "i < K" by simp_all
  then have upt: "[i..<K] = i # [Suc i..<K]" by (simp add: upt_conv_Cons)
  obtain v g1 where "(ts ! i) (h ! x) g = (v, g1)" by (cases "(ts ! i) (h ! x) g")
  with i(1) show ?case unfolding upt by simp
next
  case (Suc n)
  then have i: "i < length (h ! x)" "i < K" by simp_all
  then have upt: "[i..<K] = i # [Suc i..<K]" by (simp add: upt_conv_Cons)
  obtain v g1 where t: "(ts ! i) (h ! x) g = (v, g1)" by (cases "(ts ! i) (h ! x) g")
  let ?h1 = "h[x := (h ! x)[i := v]]"
  have cur: "?h1 ! x = (h ! x)[i := v]" using Suc.prems(1) by simp
  have "n = length (?h1 ! x) - Suc i" using Suc.hyps(2) cur by simp
  from Suc.hyps(1)[OF this, of g1] Suc.prems i cur
  have "\<exists>h' g'. GibbsSampling_loop ts [Suc i..<K] x ?h1 g1 = Inl (IndexError, h', g')"
    by simp
  with t i(1) show ?case unfolding upt by simp
qed

lemma GibbsSampling_sample_returns:
  assumes "gs_x b < length h" and "length (gs_transitions b) \<le> length (h ! gs_x b)"
  shows "\<exists>b' a h' r'. GibbsSampling_sample b h r = Inr (b', a, h', r')"
proof -
  let ?h0 = "h @ [h ! gs_x b]"
  have x: "length h < length ?h0" and cur: "?h0 ! length h = h ! gs_x b" by simp_all
  from GibbsSampling_loop_sweep[OF x, of 0 "length (gs_transitions b)" "gs_transitions b" r]
    assms(2) cur
  obtain h' r' where
    "GibbsSampling_loop (gs_transitions b) [0..<length (gs_transitions b)] (length h) ?h0 r
       = Inr (h', r')"
    by auto
  then show ?thesis by (simp add: GibbsSampling_sample_def Let_def)
qed

lemma GibbsSampling_sample_raises:
  assumes "gs_x b < length h" and "length (h ! gs_x b) < length (gs_transitions b)"
  shows "\<exists>h' r'. GibbsSampling_sample b h r = Inl (IndexError, h', r')"
proof -
  let ?h0 = "h @ [h ! gs_x b]"
  have x: "length h < length ?h0" and cur: "?h0 ! length h = h ! gs_x b" by simp_all
  from GibbsSampling_loop_IndexError[OF x, of 0 "length (gs_transitions b)" "gs_transitions b" r]
    assms(2) cur
  obtain h' r' where
    "GibbsSampling_loop (gs_transitions b) [0..<length (gs_transitions b)] (length h) ?h0 r
       = Inl (IndexError, h', r')"
    by auto
  then show ?thesis by (simp add: GibbsSampling_sample_def Let_def)
qed

lemma np_add_length_one:
  assumes "length d = 1"
  shows "np_add x (np_scale u d) = Inr (map (\<lambda>e. e + u * hd d) x)"
proof (cases "length x = 1")
  case False
  with assms show ?thesis by (cases d) (simp_all add: np_add_def np_scale_def)
next
  case True
  then obtain e where x: "x = [e]" by (cases x) auto
  from assms obtain f where d: "d = [f]" by (cases d) auto
  show ?thesis by (simp add: x d np_add_def np_scale_def)
qed

lemma np_add_ValueError:
  assumes "length d \<noteq> length x" "length d \<noteq> 1" "length x \<noteq> 1"
  shows "np_add x (np_scale u d) = Inl ValueError"
  using assms by (auto simp: np_add_def np_scale_def)

text \<open>
  Claim C8, as the code has it. Neither sampler checks a shape and there is no
  \<open>DimensionMismatch\<close>. \<open>GibbsSampling.sample\<close> returns whatever the transitions return,
  provided the state list has an entry for each transition, and raises \<open>IndexError\<close> when it
  has fewer. In \<open>MultiSampling.sample\<close>, once the one-dimensional sampler has returned a
  sample for a direction, a direction of length one is added to every entry of the state
  and the loop goes on, and a direction whose length is neither one nor that of the state
  (itself not of length one) ends the call with numpy's \<open>ValueError\<close>.
\<close>

theorem shape_mismatch_behaviour:
  assumes "gs_x b < length h"
    and "ms_uni_sampler m (uni_log_p (ms_log_p m) (ms_x m) d) 0 g = Some (Inr (u, g1))"
  shows "(length (gs_transitions b) \<le> length (h ! gs_x b) \<longrightarrow>
            (\<exists>b' a h' r'. GibbsSampling_sample b h r = Inr (b', a, h', r')))
       \<and> (length (h ! gs_x b) < length (gs_transitions b) \<longrightarrow>
            (\<exists>h' r'. GibbsSampling_sample b h r = Inl (IndexError, h', r')))
       \<and> (length d = 1 \<longrightarrow>
            MultiSampling_loop m (d # ds) g
              = MultiSampling_loop (m\<lparr>ms_x := map (\<lambda>e. e + u * hd d) (ms_x m)\<rparr>) ds g1)
       \<and> (length d \<noteq> length (ms_x m) \<and> length d \<noteq> 1 \<and> length (ms_x m) \<noteq> 1 \<longrightarrow>
            MultiSampling_loop m (d # ds) g = Some (Inl ValueError))"
proof (intro conjI impI)
  assume "length (gs_transitions b) \<le> length (h ! gs_x b)"
  from GibbsSampling_sample_returns[OF assms(1) this]
  show "\<exists>b' a h' r'. GibbsSampling_sample b h r = Inr (b', a, h', r')" .
next
  assume "length (h ! gs_x b) < length (gs_transitions b)"
  from GibbsSampling_sample_raises[OF assms(1) this]
  show "\<exists>h' r'. GibbsSampling_sample b h r = Inl (IndexError, h', r')" .
next
  assume "length d = 1"
  from np_add_length_one[OF this] assms(2)
  show "MultiSampling_loop m (d # ds) g
          = MultiSampling_loop (m\<lparr>ms_x := map (\<lambda>e. e + u * hd d) (ms_x m)\<rparr>) ds g1"
    by simp
next
  assume "length d \<noteq> length (ms_x m) \<and> length d \<noteq> 1 \<and> length (ms_x m) \<noteq> 1"
  then have "np_add (ms_x m) (np_scale u d) = Inl ValueError"
    by (intro np_add_ValueError) simp_all
  with assms(2) show "MultiSampling_loop m (d # ds) g = Some (Inl ValueError)"
    by simp
qed

lemma uni_log_p_broadcast:
  "uni_log_p laplace2 [0, 0] [1] = (\<lambda>u. Inr (Fin (- (\<bar>u\<bar> + \<bar>u\<bar>))))"
  by (rule ext) (simp add: uni_log_p_def np_add_def np_scale_def laplace2_def)

lemma slice_broadcast:
  "slice_uni_sampler 1 draws (uni_log_p laplace2 [0, 0] [1]) 0 0 = Some (Inr (- 5 / 12, 3))"
  unfolding uni_log_p_broadcast
  by (simp add: slice_uni_sampler_def
      SliceSampling_sample_def step_out_def step_out_left.simps step_out_right.simps
      shrink_loop.simps SliceSampling_init_def priv_log_p_def logval_log_def
      logval_exp_def draws_def uniform_def create_interval_def adjust_interval_def Let_def)

lemma sample_multi_broadcast:
  "MultiSampling_sample multi_broadcast 0 =
     Some (Inr (multi_broadcast\<lparr>ms_x := [- 5 / 12, - 5 / 12]\<rparr>, [- 5 / 12, - 5 / 12], 3))"
proof -
  have "np_add [0, 0] (np_scale (- 5 / 12) [1]) = Inr [- 5 / 12, - 5 / 12]"
    by (simp add: np_add_def np_scale_def)
  then show ?thesis
    by (simp add: MultiSampling_sample_def multi_broadcast_def multi_laplace_def slice_broadcast)
qed

lemma sample_gibbs_reshape:
  "GibbsSampling_sample gibbs_reshape [[[0, 0], [1]]] () =
     Inr (gibbs_reshape\<lparr>gs_x := 1\<rparr>, 1, [[[0, 0], [1]], [[1, 2, 3], [1]]], ())"
  by (simp add: GibbsSampling_sample_def gibbs_reshape_def Let_def upt_conv_Cons)

theorem shape_mismatch_behaviour_witness:
  "gs_x gibbs_reshape < length [[[0, 0], [1 :: real]]]
   \<and> ms_uni_sampler multi_broadcast
        (uni_log_p (ms_log_p multi_broadcast) (ms_x multi_broadcast) [1]) 0 0
       = Some (Inr (- 5 / 12, 3))
   \<and> (\<exists>b' a h' r'. GibbsSampling_sample gibbs_reshape [[[0, 0], [1]]] () = Inr (b', a, h', r'))
   \<and> MultiSampling_loop multi_broadcast [[1]] 0
       = MultiSampling_loop
           (multi_broadcast\<lparr>ms_x := map (\<lambda>e. e + (- 5 / 12) * hd [1]) (ms_x multi_broadcast)\<rparr>) [] 3"
proof -
  have b: "gs_x gibbs_reshape < length [[[0, 0], [1 :: real]]]"
    by (simp add: gibbs_reshape_def)
  have k: "length (gs_transitions gibbs_reshape)
             \<le> length ([[[0, 0], [1 :: real]]] ! gs_x gibbs_reshape)"
    by (simp add: gibbs_reshape_def)
  have m: "ms_uni_sampler multi_broadcast
        (uni_log_p (ms_log_p multi_broadcast) (ms_x multi_broadcast) [1]) 0 0
       = Some (Inr (- 5 / 12, 3))"
    by (simp add: multi_broadcast_def multi_laplace_def slice_broadcast)
  from shape_mismatch_behaviour[OF b m, of "()" "[]"] b k m show ?thesis by simp
qed

theorem shape_mismatch_accepted:
  "length (fst ((gs_transitions gibbs_reshape ! 0) [[0, 0], [1]] ()))
     \<noteq> length ([[0, 0], [1 :: real]] ! 0)
   \<and> GibbsSampling_sample gibbs_reshape [[[0, 0], [1]]] () =
       Inr (gibbs_reshape\<lparr>gs_x := 1\<rparr>, 1, [[[0, 0], [1]], [[1, 2, 3], [1]]], ())
   \<and> length (hd (ms_directions multi_broadcast)) \<noteq> length (ms_x multi_broadcast)
   \<and> MultiSampling_sample multi_broadcast 0 =
       Some (Inr (multi_broadcast\<lparr>ms_x := [- 5 / 12, - 5 / 12]\<rparr>, [- 5 / 12, - 5 / 12], 3))"
  using sample_gibbs_reshape sample_multi_broadcast
  by (simp add: gibbs_reshape_def multi_broadcast_def multi_laplace_def)

end
